theory Spec2Isabelle
  imports Complex_Main
begin

section \<open>Character-level text wrapping (pdf\_viewer.py, lines 129--224)\<close>

text \<open>
  Python strings are modelled as \<^typ>\<open>string\<close>; one list element stands for one
  character of the Python string. Python floats are modelled as exact rationals
  (\<^typ>\<open>rat\<close>): none of the properties below depends on rounding.

  The font metrics come from libraries outside the repository (PyMuPDF and Qt). They are
  parameters of the model: nothing is assumed about the widths they return.
\<close>

record metrics =
  get_text_length :: "string \<Rightarrow> rat \<Rightarrow> char \<Rightarrow> rat"
    \<comment> \<open>\<open>fitz.get_text_length(ch, fontname=..., fontsize=...)\<close>\<close>
  qt_default_advance :: "rat \<Rightarrow> char \<Rightarrow> rat"
    \<comment> \<open>\<open>QFontMetricsF(QFont() at point size fs).horizontalAdvance(ch)\<close>\<close>
  qt_family_advance :: "string \<Rightarrow> int \<Rightarrow> char \<Rightarrow> rat"
    \<comment> \<open>\<open>QFontMetricsF(QFont(family) at pixel size n).horizontalAdvance(ch)\<close>\<close>

definition newline :: char where
  "newline = CHR 0x0A"

text \<open>\<open>text.split("\n")\<close>: always at least one piece, pieces hold no newline.\<close>

fun split_nl :: "string \<Rightarrow> string list" where
  "split_nl [] = [[]]"
| "split_nl (c # cs) =
     (if c = newline then [] # split_nl cs
      else (c # hd (split_nl cs)) # tl (split_nl cs))"

text \<open>\<open>"\n".join(lines)\<close>.\<close>

fun join_nl :: "string list \<Rightarrow> string" where
  "join_nl [] = []"
| "join_nl [l] = l"
| "join_nl (l # m # ls) = l @ newline # join_nl (m # ls)"

text \<open>
  The inner loop \<open>for ch in line\<close>, shared by both wrappers. Its state is
  \<open>(result_lines, cur, cur_w)\<close>; \<open>limit\<close> is the right-hand side of the comparison
  (\<open>effective_width\<close>, respectively \<open>max_width + 0.1\<close>).
\<close>

fun wrap_chars :: "(char \<Rightarrow> rat) \<Rightarrow> rat \<Rightarrow> string \<Rightarrow>
    string list \<times> string \<times> rat \<Rightarrow> string list \<times> string \<times> rat" where
  "wrap_chars cw limit [] st = st"
| "wrap_chars cw limit (ch # rest) (result_lines, cur, cur_w) =
     (let ch_w = cw ch in
      if cur_w + ch_w > limit \<and> cur \<noteq> []
      then wrap_chars cw limit rest (result_lines @ [cur], [ch], ch_w)
      else wrap_chars cw limit rest (result_lines, cur @ [ch], cur_w + ch_w))"

text \<open>The outer loop \<open>for line in text.split("\n")\<close>.\<close>

fun wrap_lines :: "(char \<Rightarrow> rat) \<Rightarrow> rat \<Rightarrow> string list \<Rightarrow> string list \<Rightarrow> string list" where
  "wrap_lines cw limit [] result_lines = result_lines"
| "wrap_lines cw limit (line # lines) result_lines =
     (if line = [] then wrap_lines cw limit lines (result_lines @ [[]])
      else (case wrap_chars cw limit line (result_lines, [], 0) of
              (res, cur, cur_w) \<Rightarrow>
                wrap_lines cw limit lines (if cur \<noteq> [] then res @ [cur] else res)))"

text \<open>\<open>_char_width\<close>, the closure inside \<open>_fitz_char_wrap_text\<close>.\<close>

definition char_width :: "metrics \<Rightarrow> string \<Rightarrow> rat \<Rightarrow> char \<Rightarrow> rat" where
  "char_width m fontname fontsize ch =
     (let w = get_text_length m fontname fontsize ch in
      if w > 0 then w else qt_default_advance m fontsize ch)"

definition fitz_char_wrap_text :: "metrics \<Rightarrow> string \<Rightarrow> rat \<Rightarrow> rat \<Rightarrow> string \<Rightarrow> string" where
  "fitz_char_wrap_text m text max_width fontsize fontname =
     (if text = [] \<or> max_width \<le> 0 \<or> fontsize \<le> 0 then text
      else
        let effective_width = max_width - 4;
            effective_width = (if effective_width \<le> 0 then max_width else effective_width)
        in join_nl (wrap_lines (char_width m fontname fontsize) effective_width
                      (split_nl text) []))"

text \<open>\<open>str.lower()\<close> on the ASCII letters, enough for the font names compared below.\<close>

definition lower_char :: "char \<Rightarrow> char" where
  "lower_char c =
     (let n = of_char c :: nat in if 65 \<le> n \<and> n \<le> 90 then char_of (n + 32) else c)"

definition lower :: "string \<Rightarrow> string" where
  "lower s = map lower_char s"

definition qt_family :: "string \<Rightarrow> string" where
  "qt_family fontname =
     (if lower fontname \<in> {''cour'', ''courier''} then ''Courier''
      else if lower fontname \<in> {''tiro'', ''times''} then ''Times''
      else ''Helvetica'')"

text \<open>\<open>int(x)\<close> on a float: truncation towards zero.\<close>

definition py_int :: "rat \<Rightarrow> int" where
  "py_int x = (if x \<ge> 0 then \<lfloor>x\<rfloor> else \<lceil>x\<rceil>)"

definition char_wrap_text :: "metrics \<Rightarrow> string \<Rightarrow> rat \<Rightarrow> rat \<Rightarrow> string \<Rightarrow> string" where
  "char_wrap_text m text max_width fontsize fontname =
     (if text = [] \<or> max_width \<le> 0 \<or> fontsize \<le> 0 then text
      else
        let fm = qt_family_advance m (qt_family fontname) (max (py_int fontsize) 1)
        in join_nl (wrap_lines fm (max_width + 1 / 10) (split_nl text) []))"

text \<open>A fixed-pitch font, used to run the wrappers on concrete inputs.\<close>

definition fixed_pitch :: metrics where
  "fixed_pitch = \<lparr>get_text_length = (\<lambda>fontname fontsize ch. 6),
                  qt_default_advance = (\<lambda>fontsize ch. 7),
                  qt_family_advance = (\<lambda>family px ch. 7)\<rparr>"

section \<open>Line-text reconstruction from glyph boxes (pdf\_viewer.py, lines 1657--1715)\<close>















section \<open>Stamp resize (pdf\_viewer.py, lines 1023--1036 and 1075--1104)\<close>

text \<open>
  \<open>fitz.Rect\<close>: four coordinates; its properties \<open>width\<close> and \<open>height\<close> are
  \<open>max(0, x1 - x0)\<close> and \<open>max(0, y1 - y0)\<close> in PyMuPDF.
\<close>

record rect =
  x0 :: rat
  y0 :: rat
  x1 :: rat
  y1 :: rat


definition height :: "rect \<Rightarrow> rat" where
  "height r = max 0 (y1 r - y0 r)"





section \<open>The PDF view widget (pdf\_viewer.py, class PDFViewWidget)\<close>

subsection \<open>Data\<close>

text \<open>
  The PDF engine (PyMuPDF) is outside the repository. A document is modelled by what the
  widget reads from it and writes to it: the page rectangles and, per page, the drawing
  operations appended by a committed text edit.
\<close>

datatype content_op =
    DrawRect rect                    \<comment> \<open>\<open>page.draw_rect(cover_rect, fill=bg_color, overlay=True)\<close>\<close>
  | InsertText rat rat string rat int  \<comment> \<open>\<open>page.insert_text(point, new_text, fontsize, color)\<close>\<close>

record page =
  p_rect :: rect
  p_contents :: "content_op list"

type_synonym document = "page list"


datatype mode = MODE_NORMAL | MODE_TEXT_PLACEMENT | MODE_CROP | MODE_TEXT_EDIT

datatype cursor_shape = ArrowCursor | CrossCursor | IBeamCursor

datatype qimage = NullImage | Image nat

datatype pixmap_view = Plain nat | Scaled nat int int

datatype config_value = ConfigText string | ConfigNumber rat | ConfigColor rat rat rat

type_synonym key = "int \<times> rat"

record line_info =
  li_text :: string
  li_bbox :: rect
  li_font :: string
  li_size :: rat
  li_color :: int
  li_origin :: "rat \<times> rat"
  li_first_char_x :: "rat option"

record stamp =
  st_page :: int
  st_rect :: rect
  st_path :: string

record widget =
  doc :: "document option"
  file_path :: string
  doc_bytes_snapshot :: "document option"
  zoom :: rat
  page_offsets :: "int list"
  page_heights :: "int list"
  page_rects :: "rect list"
  render_cache :: "(key \<times> nat) list"
  low_res_cache :: "(key \<times> nat) list"
  pending_renders :: "key set"
  mode :: mode
  selected_annot :: "nat option"
  selected_page :: int
  pending_text_config :: "(string \<times> config_value) list"
  overlay_stamps :: "stamp list"
  search_rects :: "(int \<times> rect) list"
  text_edit_lines_cache :: "(int \<times> line_info list) list"
  text_edit_hover_line :: "line_info option"
  text_edit_hover_page :: int
  text_edit_widget :: "string option"
  text_edit_line_info :: "line_info option"
  text_edit_page :: int
  is_zooming :: bool
  visual_zoom :: rat
  zoom_target :: rat
  lerp_timer_active :: bool
  crop_start_pos :: "(rat \<times> rat) option"
  crop_current_pos :: "(rat \<times> rat) option"
  crop_callback :: "nat option"
  cursor :: cursor_shape

text \<open>The state after \<open>__init__\<close>.\<close>

definition init_widget :: widget where
  "init_widget =
     \<lparr>doc = None, file_path = [], doc_bytes_snapshot = None, zoom = 1,
      page_offsets = [], page_heights = [], page_rects = [],
      render_cache = [], low_res_cache = [], pending_renders = {},
      mode = MODE_NORMAL, selected_annot = None, selected_page = - 1,
      pending_text_config = [], overlay_stamps = [], search_rects = [],
      text_edit_lines_cache = [], text_edit_hover_line = None, text_edit_hover_page = - 1,
      text_edit_widget = None, text_edit_line_info = None, text_edit_page = - 1,
      is_zooming = False, visual_zoom = 1, zoom_target = 1, lerp_timer_active = False,
      crop_start_pos = None, crop_current_pos = None, crop_callback = None,
      cursor = ArrowCursor\<rparr>"

text \<open>
  \<open>not self._doc\<close>: a \<open>fitz.Document\<close> has \<open>__len__\<close> (its page count), so a
  document without pages is false like \<open>None\<close>.
\<close>

definition doc_truthy :: "widget \<Rightarrow> bool" where
  "doc_truthy w = (case doc w of None \<Rightarrow> False | Some d \<Rightarrow> d \<noteq> [])"


subsection \<open>OrderedDict\<close>

text \<open>
  An \<open>OrderedDict\<close> is an association list in iteration order, oldest entry first.
  \<open>od[k] = v\<close> keeps the position of a key that is present and appends a new one.
\<close>

fun od_set :: "'k \<Rightarrow> 'v \<Rightarrow> ('k \<times> 'v) list \<Rightarrow> ('k \<times> 'v) list" where
  "od_set k v [] = [(k, v)]"
| "od_set k v ((k', v') # rest) =
     (if k' = k then (k, v) # rest else (k', v') # od_set k v rest)"

definition od_del :: "'k \<Rightarrow> ('k \<times> 'v) list \<Rightarrow> ('k \<times> 'v) list" where
  "od_del k od = filter (\<lambda>e. fst e \<noteq> k) od"

text \<open>
  \<open>od.move_to_end(k)\<close>. It raises \<open>KeyError\<close> for an absent key; the widget calls it
  only for a key it has just found or stored, and an absent key leaves the model's list as
  it is.
\<close>

definition od_move_to_end :: "'k \<Rightarrow> ('k \<times> 'v) list \<Rightarrow> ('k \<times> 'v) list" where
  "od_move_to_end k od =
     (case map_of od k of None \<Rightarrow> od | Some v \<Rightarrow> od_del k od @ [(k, v)])"

text \<open>\<open>while len(od) > cap: od.popitem(last=False)\<close>.\<close>

fun od_trim :: "nat \<Rightarrow> 'a list \<Rightarrow> 'a list" where
  "od_trim cap [] = []"
| "od_trim cap (e # rest) = (if length (e # rest) > cap then od_trim cap rest else e # rest)"

subsection \<open>Layout\<close>

definition PAGE_GAP :: int where
  "PAGE_GAP = 16"

text \<open>The loop of \<open>_recalculate_layout\<close>; \<open>y\<close> is the running offset.\<close>

fun layout_pages :: "rat \<Rightarrow> rect list \<Rightarrow> int \<Rightarrow> int list \<times> int list \<Rightarrow> int list \<times> int list" where
  "layout_pages z [] y acc = acc"
| "layout_pages z (r # rs) y (offsets, heights) =
     (let h = py_int (height r * z)
      in layout_pages z rs (y + h + PAGE_GAP) (offsets @ [y], heights @ [h]))"

definition recalculate_layout :: "widget \<Rightarrow> widget" where
  "recalculate_layout w =
     (let w1 = w\<lparr>page_offsets := [], page_heights := []\<rparr> in
      if \<not> doc_truthy w1 then w1
      else if page_rects w1 = [] then w1
      else (case layout_pages (zoom w1) (page_rects w1) PAGE_GAP ([], []) of
              (offsets, heights) \<Rightarrow> w1\<lparr>page_offsets := offsets, page_heights := heights\<rparr>))"

text \<open>\<open>bisect.bisect_right(a, x)\<close> of the standard library, with \<open>lo = 0\<close>, \<open>hi = len(a)\<close>.\<close>

function bisect_loop :: "int list \<Rightarrow> int \<Rightarrow> nat \<Rightarrow> nat \<Rightarrow> nat" where
  "bisect_loop a x lo hi =
     (if lo < hi then
        (let mid = (lo + hi) div 2 in
         if x < a ! mid then bisect_loop a x lo mid else bisect_loop a x (mid + 1) hi)
      else lo)"
  by pat_completeness auto
termination
  by (relation "measure (\<lambda>(a, x, lo, hi). hi - lo)") auto

definition bisect_right :: "int list \<Rightarrow> int \<Rightarrow> nat" where
  "bisect_right a x = bisect_loop a x 0 (length a)"

definition page_at_y :: "widget \<Rightarrow> int \<Rightarrow> int" where
  "page_at_y w y =
     (if page_offsets w = [] then 0
      else
        let idx = int (bisect_right (page_offsets w) y) - 1
        in max 0 (min idx (int (length (page_offsets w)) - 1)))"

definition set_document :: "document option \<Rightarrow> string \<Rightarrow> bool \<Rightarrow> widget \<Rightarrow> widget" where
  "set_document d path keep_snapshot w =
     (let w1 = w\<lparr>doc := d, file_path := path,
                 doc_bytes_snapshot := (if keep_snapshot then doc_bytes_snapshot w else None),
                 render_cache := [], low_res_cache := [],
                 selected_annot := None, selected_page := - 1,
                 overlay_stamps := [], search_rects := [], page_rects := []\<rparr>;
          w2 = (if doc_truthy w1 then w1\<lparr>page_rects := map p_rect (the (doc w1))\<rparr> else w1)
      in recalculate_layout w2)"

subsection \<open>Zoom\<close>

text \<open>
  \<open>round(x, 3)\<close>: the nearest multiple of 0.001, ties to the even one.
\<close>

definition round_half_even :: "rat \<Rightarrow> int" where
  "round_half_even x =
     (let f = \<lfloor>x\<rfloor>; d = x - of_int f in
      if d < 1 / 2 then f else if d > 1 / 2 then f + 1 else if even f then f else f + 1)"

definition py_round3 :: "rat \<Rightarrow> rat" where
  "py_round3 x = of_int (round_half_even (x * 1000)) / 1000"

definition set_zoom :: "rat \<Rightarrow> widget \<Rightarrow> widget" where
  "set_zoom z0 w =
     (let z = max (1 / 10) (min z0 8) in
      if \<bar>z - zoom w\<bar> < 1 / 1000 then w
      else recalculate_layout
             (w\<lparr>zoom := z, visual_zoom := z, zoom_target := z, is_zooming := True\<rparr>))"

text \<open>
  \<open>wheelEvent\<close>: \<open>ctrl\<close> says whether the Control modifier is held, \<open>pixel_y\<close> and
  \<open>angle_y\<close> are the integer deltas of the event. The scroll-origin snapshot taken for
  the scroll bar is not part of the model.
\<close>

definition wheelEvent :: "bool \<Rightarrow> int \<Rightarrow> int \<Rightarrow> widget \<Rightarrow> widget" where
  "wheelEvent ctrl pixel_y angle_y w =
     (if ctrl then
        let factor = (if pixel_y \<noteq> 0 then 1 + of_int pixel_y * (4 / 1000)
                      else 1 + (of_int angle_y / 120) * (7 / 100));
            t = zoom_target w * factor
        in w\<lparr>zoom_target := max (1 / 10) (min t 8), is_zooming := True,
              lerp_timer_active := True\<rparr>
      else w)"

definition on_zoom_finished :: "widget \<Rightarrow> widget" where
  "on_zoom_finished w =
     (let w1 = (if \<bar>zoom_target w - zoom w\<bar> > 1 / 1000
                then recalculate_layout
                       (w\<lparr>lerp_timer_active := False,
                          zoom := py_round3 (zoom_target w),
                          visual_zoom := py_round3 (zoom_target w)\<rparr>)
                else w)
      in w1\<lparr>pending_renders := {}\<rparr>)"

definition lerp_zoom :: "widget \<Rightarrow> widget" where
  "lerp_zoom w =
     (let diff = zoom_target w - visual_zoom w in
      if \<bar>diff\<bar> < 5 / 10000
      then w\<lparr>visual_zoom := zoom_target w, lerp_timer_active := False\<rparr>
      else w\<lparr>visual_zoom := visual_zoom w + diff * (22 / 100)\<rparr>)"

definition on_zoom_settled :: "widget \<Rightarrow> widget" where
  "on_zoom_settled w = w\<lparr>is_zooming := False\<rparr>"

subsection \<open>Render cache\<close>

definition current_key :: "widget \<Rightarrow> int \<Rightarrow> key" where
  "current_key w page_index = (page_index, py_round3 (zoom w))"

definition start_render_task :: "int \<Rightarrow> key \<Rightarrow> widget \<Rightarrow> widget" where
  "start_render_task page_index k w =
     (if \<not> doc_truthy w \<or> (file_path w = [] \<and> doc_bytes_snapshot w = None) then w
      else w\<lparr>pending_renders := insert k (pending_renders w)\<rparr>)"

definition get_page_pixmap :: "int \<Rightarrow> int \<Rightarrow> int \<Rightarrow> widget \<Rightarrow> pixmap_view option \<times> widget" where
  "get_page_pixmap page_index target_w target_h w =
     (let k = current_key w page_index in
      case map_of (render_cache w) k of
        Some pm \<Rightarrow> (Some (Plain pm), w\<lparr>render_cache := od_move_to_end k (render_cache w)\<rparr>)
      | None \<Rightarrow>
          let w1 = (if k \<notin> pending_renders w then start_render_task page_index k w else w) in
          (case map_of (low_res_cache w1) k of
             Some pm \<Rightarrow> (Some (Scaled pm target_w target_h), w1)
           | None \<Rightarrow>
               if is_zooming w1 then
                 (let candidates = filter (\<lambda>e. fst (fst e) = page_index) (render_cache w1) in
                  if candidates \<noteq> []
                  then (Some (Scaled (snd (last candidates)) target_w target_h), w1)
                  else (None, w1))
               else (None, w1)))"

definition on_render_finished :: "qimage \<Rightarrow> bool \<Rightarrow> int \<Rightarrow> key \<Rightarrow> widget \<Rightarrow> widget" where
  "on_render_finished img is_high_res page_index k w =
     (let w1 = (if is_high_res \<and> k \<in> pending_renders w
                then w\<lparr>pending_renders := pending_renders w - {k}\<rparr> else w)
      in
      if k \<noteq> current_key w1 page_index then w1
      else
        (case img of
           NullImage \<Rightarrow> w1
         | Image pm \<Rightarrow>
             if is_high_res then
               w1\<lparr>render_cache :=
                     od_trim 30 (od_move_to_end k (od_set k pm (render_cache w1))),
                   low_res_cache :=
                     (if k \<in> fst ` set (low_res_cache w1) then od_del k (low_res_cache w1)
                      else low_res_cache w1)\<rparr>
             else w1\<lparr>low_res_cache := od_trim 150 (od_set k pm (low_res_cache w1))\<rparr>))"

definition invalidate_page :: "int \<Rightarrow> widget \<Rightarrow> widget" where
  "invalidate_page page_index w =
     w\<lparr>render_cache := filter (\<lambda>e. fst (fst e) \<noteq> page_index) (render_cache w),
       low_res_cache := filter (\<lambda>e. fst (fst e) \<noteq> page_index) (low_res_cache w)\<rparr>"

definition invalidate_all_pages :: "widget \<Rightarrow> widget" where
  "invalidate_all_pages w = w\<lparr>render_cache := []\<rparr>"

subsection \<open>Events\<close>

text \<open>
  The calls that read or write the zoom state, the layout and the two cache tiers. A render
  completion is the signal delivered to \<open>_on_render_finished\<close>; the paint cycle asks for
  pages through \<open>_get_page_pixmap\<close>.
\<close>

datatype event =
    SetDocument "document option" string bool
  | SetZoom rat
  | WheelEvent bool int int
  | LerpZoom
  | OnZoomFinished
  | OnZoomSettled
  | GetPagePixmap int int int
  | OnRenderFinished qimage bool int key
  | InvalidatePage int
  | InvalidateAllPages

fun step :: "event \<Rightarrow> widget \<Rightarrow> widget" where
  "step (SetDocument d path keep) w = set_document d path keep w"
| "step (SetZoom z) w = set_zoom z w"
| "step (WheelEvent ctrl pixel_y angle_y) w = wheelEvent ctrl pixel_y angle_y w"
| "step LerpZoom w = lerp_zoom w"
| "step OnZoomFinished w = on_zoom_finished w"
| "step OnZoomSettled w = on_zoom_settled w"
| "step (GetPagePixmap page_index tw th) w = snd (get_page_pixmap page_index tw th w)"
| "step (OnRenderFinished img is_high_res page_index k) w =
     on_render_finished img is_high_res page_index k w"
| "step (InvalidatePage page_index) w = invalidate_page page_index w"
| "step InvalidateAllPages w = invalidate_all_pages w"

definition run_events :: "event list \<Rightarrow> widget \<Rightarrow> widget" where
  "run_events evs w = foldl (\<lambda>s e. step e s) w evs"

definition zoom_in_range :: "rat \<Rightarrow> bool" where
  "zoom_in_range z \<longleftrightarrow> 1 / 10 \<le> z \<and> z \<le> 8"

definition zoom_ok :: "widget \<Rightarrow> bool" where
  "zoom_ok w \<longleftrightarrow>
     zoom_in_range (zoom w) \<and> zoom_in_range (zoom_target w) \<and> zoom_in_range (visual_zoom w)"

subsection \<open>Recency of cache entries\<close>

text \<open>
  To speak about least-recently-used entries, every event gets a time stamp (its position
  in the sequence of events), and three tables record, outside the widget, for each key: when its
  entry in the high-res tier was last used, when its entry in the low-res tier was last
  used, and when its entry entered the low-res tier. An entry is used when a completion
  stores it and when \<open>_get_page_pixmap\<close> finds it under its key. The scaled fallback
  that \<open>_get_page_pixmap\<close> takes from another zoom level during a zoom gesture is a scan
  of the tier, not a lookup of a key, and does not count as a use.
\<close>

record usage =
  clock :: nat
  hi_used :: "key \<Rightarrow> nat"
  lo_used :: "key \<Rightarrow> nat"
  lo_born :: "key \<Rightarrow> nat"

definition init_usage :: usage where
  "init_usage = \<lparr>clock = 0, hi_used = (\<lambda>k. 0), lo_used = (\<lambda>k. 0), lo_born = (\<lambda>k. 0)\<rparr>"

definition hi_keys :: "widget \<Rightarrow> key list" where
  "hi_keys w = map fst (render_cache w)"

definition lo_keys :: "widget \<Rightarrow> key list" where
  "lo_keys w = map fst (low_res_cache w)"

text \<open>The key whose high-res entry the event stores or finds, if any.\<close>

fun hi_use :: "event \<Rightarrow> widget \<Rightarrow> key option" where
  "hi_use (OnRenderFinished img is_high_res page_index k) w =
     (if is_high_res \<and> img \<noteq> NullImage \<and> k = current_key w page_index then Some k else None)"
| "hi_use (GetPagePixmap page_index tw th) w =
     (if current_key w page_index \<in> set (hi_keys w) then Some (current_key w page_index)
      else None)"
| "hi_use e w = None"

text \<open>The key whose low-res entry the event stores, if any.\<close>

fun lo_store :: "event \<Rightarrow> widget \<Rightarrow> key option" where
  "lo_store (OnRenderFinished img is_high_res page_index k) w =
     (if \<not> is_high_res \<and> img \<noteq> NullImage \<and> k = current_key w page_index then Some k else None)"
| "lo_store e w = None"

text \<open>The key whose low-res entry the event stores or finds, if any.\<close>

fun lo_use :: "event \<Rightarrow> widget \<Rightarrow> key option" where
  "lo_use (GetPagePixmap page_index tw th) w =
     (if current_key w page_index \<notin> set (hi_keys w) \<and> current_key w page_index \<in> set (lo_keys w)
      then Some (current_key w page_index) else None)"
| "lo_use e w = lo_store e w"

definition stamp_key :: "key option \<Rightarrow> nat \<Rightarrow> (key \<Rightarrow> nat) \<Rightarrow> key \<Rightarrow> nat" where
  "stamp_key ko t f = (case ko of None \<Rightarrow> f | Some k \<Rightarrow> f(k := t))"

definition note_use :: "event \<Rightarrow> widget \<Rightarrow> usage \<Rightarrow> usage" where
  "note_use e w g =
     \<lparr>clock = Suc (clock g),
      hi_used = stamp_key (hi_use e w) (Suc (clock g)) (hi_used g),
      lo_used = stamp_key (lo_use e w) (Suc (clock g)) (lo_used g),
      lo_born = (case lo_store e w of
                   None \<Rightarrow> lo_born g
                 | Some k \<Rightarrow> if k \<in> set (lo_keys w) then lo_born g
                             else (lo_born g)(k := Suc (clock g)))\<rparr>"

definition tracked_step :: "event \<Rightarrow> widget \<times> usage \<Rightarrow> widget \<times> usage" where
  "tracked_step e s = (step e (fst s), note_use e (fst s) (snd s))"

definition run_tracked :: "event list \<Rightarrow> widget \<times> usage" where
  "run_tracked evs = foldl (\<lambda>s e. tracked_step e s) (init_widget, init_usage) evs"

text \<open>
  A tier is ordered by a table of time stamps when the stamps increase strictly along its
  iteration order and none lies in the future.
\<close>

definition ordered_by :: "(key \<Rightarrow> nat) \<Rightarrow> nat \<Rightarrow> key list \<Rightarrow> bool" where
  "ordered_by f c ks \<longleftrightarrow> sorted_wrt (<) (map f ks) \<and> list_all (\<lambda>k. f k \<le> c) ks"

subsection \<open>Native text edit and interaction modes\<close>








subsection \<open>Concrete inputs\<close>

text \<open>A document of \<open>n\<close> empty US-letter pages.\<close>

definition letter :: rect where
  "letter = \<lparr>x0 = 0, y0 = 0, x1 = 612, y1 = 792\<rparr>"

definition blank_doc :: "nat \<Rightarrow> document" where
  "blank_doc n = replicate n \<lparr>p_rect = letter, p_contents = []\<rparr>"

definition two_pages :: widget where
  "two_pages = set_document (Some (blank_doc 2)) ''a.pdf'' False init_widget"



text \<open>
  Browsing a long document: every visited page is painted and then receives its preview
  (respectively its high-res image). The traces below continue with further paints.
\<close>

definition paint_and_preview :: "nat \<Rightarrow> event list" where
  "paint_and_preview i =
     [GetPagePixmap (int i) 612 792, OnRenderFinished (Image i) False (int i) (int i, 1)]"

definition paint_and_render :: "nat \<Rightarrow> event list" where
  "paint_and_render i =
     [GetPagePixmap (int i) 612 792, OnRenderFinished (Image i) True (int i) (int i, 1)]"

definition browse :: "(nat \<Rightarrow> event list) \<Rightarrow> nat \<Rightarrow> event list" where
  "browse visit n =
     SetDocument (Some (blank_doc 200)) ''a.pdf'' False # concat (map visit [0..<n])"

definition lo_trace :: "event list" where
  "lo_trace = browse paint_and_preview 150 @ [GetPagePixmap 0 612 792, GetPagePixmap 150 612 792]"

definition hi_trace :: "event list" where
  "hi_trace = browse paint_and_render 30 @ [GetPagePixmap 30 612 792]"

section \<open>Verification: the text wrappers\<close>

lemma split_nl_nonempty: "split_nl s \<noteq> []"
  by (induction s) auto

lemma concat_split_nl: "concat (split_nl s) = filter (\<lambda>c. c \<noteq> newline) s"
proof (induction s)
  case Nil
  show ?case by simp
next
  case (Cons c cs)
  obtain l ls where sp: "split_nl cs = l # ls"
    using split_nl_nonempty [of cs] by (cases "split_nl cs") auto
  with Cons show ?case by auto
qed

lemma split_nl_no_newline: "l \<in> set (split_nl s) \<Longrightarrow> newline \<notin> set l"
proof (induction s arbitrary: l)
  case Nil
  then show ?case by simp
next
  case (Cons c cs)
  obtain k ks where sp: "split_nl cs = k # ks"
    using split_nl_nonempty [of cs] by (cases "split_nl cs") auto
  from Cons.prems sp Cons.IH [of k] Cons.IH [of l] show ?case
    by (auto split: if_splits)
qed

lemma split_nl_plain: "newline \<notin> set s \<Longrightarrow> split_nl s = [s]"
  by (induction s) auto

lemma split_nl_append_plain:
  "newline \<notin> set l \<Longrightarrow> split_nl (l @ newline # s) = l # split_nl s"
  by (induction l) auto

lemma split_join_nl:
  "ls \<noteq> [] \<Longrightarrow> \<forall>l \<in> set ls. newline \<notin> set l \<Longrightarrow> split_nl (join_nl ls) = ls"
proof (induction ls rule: join_nl.induct)
  case 1
  then show ?case by simp
next
  case (2 l)
  then show ?case by (simp add: split_nl_plain)
next
  case (3 l m ls)
  then show ?case by (simp add: split_nl_append_plain)
qed

lemma filter_join_nl:
  "filter (\<lambda>c. c \<noteq> newline) (join_nl ls) = filter (\<lambda>c. c \<noteq> newline) (concat ls)"
  by (induction ls rule: join_nl.induct) auto

lemma wrap_chars_concat:
  "wrap_chars cw limit line (res, cur, w) = (res', cur', w') \<Longrightarrow>
   concat res' @ cur' = concat res @ cur @ line"
proof (induction line arbitrary: res cur w)
  case Nil
  then show ?case by simp
next
  case (Cons ch rest)
  show ?case
  proof (cases "w + cw ch > limit \<and> cur \<noteq> []")
    case True
    with Cons.prems have "wrap_chars cw limit rest (res @ [cur], [ch], cw ch) = (res', cur', w')"
      by (simp add: Let_def)
    from Cons.IH [OF this] show ?thesis by simp
  next
    case False
    with Cons.prems have "wrap_chars cw limit rest (res, cur @ [ch], w + cw ch) = (res', cur', w')"
      by (auto simp: Let_def)
    from Cons.IH [OF this] show ?thesis by simp
  qed
qed

lemma wrap_lines_concat:
  "concat (wrap_lines cw limit lines res) = concat res @ concat lines"
proof (induction lines arbitrary: res)
  case Nil
  show ?case by simp
next
  case (Cons line lines)
  show ?case
  proof (cases "line = []")
    case True
    with Cons.IH show ?thesis by simp
  next
    case False
    obtain r c w where wc: "wrap_chars cw limit line (res, [], 0) = (r, c, w)"
      by (cases "wrap_chars cw limit line (res, [], 0)") auto
    from wrap_chars_concat [OF wc] have "concat r @ c = concat res @ line" by simp
    with False wc Cons.IH show ?thesis by (cases "c = []") auto
  qed
qed

lemma wrap_chars_append:
  "wrap_chars cw limit (xs @ ys) st = wrap_chars cw limit ys (wrap_chars cw limit xs st)"
proof (induction xs arbitrary: st)
  case Nil
  show ?case by simp
next
  case (Cons ch xs)
  obtain res cur w where st: "st = (res, cur, w)" by (cases st) auto
  show ?case unfolding st by (simp add: Let_def Cons.IH)
qed

text \<open>
  A chunk is \<open>settled\<close> when the inner loop, started afresh on it, runs through it without
  emitting a line; \<open>w\<close> is the width accumulated on the way.
\<close>

definition settled :: "(char \<Rightarrow> rat) \<Rightarrow> rat \<Rightarrow> string \<Rightarrow> rat \<Rightarrow> bool" where
  "settled cw limit chunk w \<longleftrightarrow> wrap_chars cw limit chunk ([], [], 0) = ([], chunk, w)"

lemma settled_Nil: "settled cw limit [] 0"
  by (simp add: settled_def)

lemma settled_single: "settled cw limit [ch] (cw ch)"
  by (simp add: settled_def)

lemma settled_snoc:
  assumes "settled cw limit cur w" and "\<not> (w + cw ch > limit \<and> cur \<noteq> [])"
  shows "settled cw limit (cur @ [ch]) (w + cw ch)"
proof -
  have "wrap_chars cw limit (cur @ [ch]) ([], [], 0) = wrap_chars cw limit [ch] ([], cur, w)"
    using assms(1) by (simp add: wrap_chars_append settled_def)
  also have "\<dots> = ([], cur @ [ch], w + cw ch)"
    using assms(2) by (auto simp: Let_def)
  finally show ?thesis by (simp add: settled_def)
qed

lemma wrap_chars_settled:
  assumes "wrap_chars cw limit line (res, cur, w) = (res', cur', w')"
    and "settled cw limit cur w"
    and "\<forall>l \<in> set res. \<exists>v. settled cw limit l v"
  shows "settled cw limit cur' w' \<and> (\<forall>l \<in> set res'. \<exists>v. settled cw limit l v)"
  using assms
proof (induction line arbitrary: res cur w)
  case Nil
  then show ?case by simp
next
  case (Cons ch rest)
  show ?case
  proof (cases "w + cw ch > limit \<and> cur \<noteq> []")
    case True
    with Cons.prems(1)
    have run: "wrap_chars cw limit rest (res @ [cur], [ch], cw ch) = (res', cur', w')"
      by (simp add: Let_def)
    have "\<forall>l \<in> set (res @ [cur]). \<exists>v. settled cw limit l v"
      using Cons.prems(2,3) by auto
    from Cons.IH [OF run settled_single this] show ?thesis .
  next
    case False
    with Cons.prems(1)
    have run: "wrap_chars cw limit rest (res, cur @ [ch], w + cw ch) = (res', cur', w')"
      by (auto simp: Let_def)
    from Cons.IH [OF run settled_snoc [OF Cons.prems(2) False] Cons.prems(3)]
    show ?thesis .
  qed
qed

lemma wrap_lines_settled:
  assumes "\<forall>l \<in> set res. \<exists>v. settled cw limit l v"
  shows "\<forall>l \<in> set (wrap_lines cw limit lines res). \<exists>v. settled cw limit l v"
  using assms
proof (induction lines arbitrary: res)
  case Nil
  then show ?case by simp
next
  case (Cons line lines)
  show ?case
  proof (cases "line = []")
    case True
    have "\<forall>l \<in> set (res @ [[]]). \<exists>v. settled cw limit l v"
      using Cons.prems settled_Nil by auto
    from Cons.IH [OF this] True show ?thesis by simp
  next
    case False
    obtain r c w where wc: "wrap_chars cw limit line (res, [], 0) = (r, c, w)"
      by (cases "wrap_chars cw limit line (res, [], 0)") auto
    from wrap_chars_settled [OF wc settled_Nil Cons.prems]
    have c: "settled cw limit c w" and r: "\<forall>l \<in> set r. \<exists>v. settled cw limit l v"
      by auto
    have "\<forall>l \<in> set (if c \<noteq> [] then r @ [c] else r). \<exists>v. settled cw limit l v"
      using c r by auto
    from Cons.IH [OF this] False wc show ?thesis by simp
  qed
qed

lemma wrap_chars_grows:
  "wrap_chars cw limit line (res, cur, w) = (res', cur', w') \<Longrightarrow>
   length res \<le> length res' \<and> (cur \<noteq> [] \<or> line \<noteq> [] \<longrightarrow> cur' \<noteq> [])"
proof (induction line arbitrary: res cur w)
  case Nil
  then show ?case by simp
next
  case (Cons ch rest)
  show ?case
  proof (cases "w + cw ch > limit \<and> cur \<noteq> []")
    case True
    with Cons.prems have "wrap_chars cw limit rest (res @ [cur], [ch], cw ch) = (res', cur', w')"
      by (simp add: Let_def)
    from Cons.IH [OF this] show ?thesis by simp
  next
    case False
    with Cons.prems have "wrap_chars cw limit rest (res, cur @ [ch], w + cw ch) = (res', cur', w')"
      by (auto simp: Let_def)
    from Cons.IH [OF this] show ?thesis by simp
  qed
qed

lemma wrap_lines_length: "length res + length lines \<le> length (wrap_lines cw limit lines res)"
proof (induction lines arbitrary: res)
  case Nil
  show ?case by simp
next
  case (Cons line lines)
  show ?case
  proof (cases "line = []")
    case True
    with Cons.IH [of "res @ [[]]"] show ?thesis by simp
  next
    case False
    obtain r c w where wc: "wrap_chars cw limit line (res, [], 0) = (r, c, w)"
      by (cases "wrap_chars cw limit line (res, [], 0)") auto
    from wrap_chars_grows [OF wc] False have "length res \<le> length r" and "c \<noteq> []"
      by auto
    with Cons.IH [of "r @ [c]"] False wc show ?thesis by simp
  qed
qed

lemma wrap_lines_no_newline:
  assumes "\<forall>l \<in> set res. newline \<notin> set l" and "\<forall>l \<in> set lines. newline \<notin> set l"
  shows "\<forall>l \<in> set (wrap_lines cw limit lines res). newline \<notin> set l"
proof -
  have "newline \<notin> set (concat (wrap_lines cw limit lines res))"
    using assms by (simp add: wrap_lines_concat)
  then show ?thesis by auto
qed

lemma settled_rewrap:
  assumes "settled cw limit l v" and "newline \<notin> set l"
  shows "join_nl (wrap_lines cw limit (split_nl l) []) = l"
proof (cases "l = []")
  case True
  then show ?thesis by simp
next
  case False
  from assms(1) have "wrap_chars cw limit l ([], [], 0) = ([], l, v)"
    by (simp add: settled_def)
  with False assms(2) show ?thesis by (simp add: split_nl_plain)
qed

lemma wrapped_lines_fixed:
  assumes "l \<in> set (split_nl (join_nl (wrap_lines cw limit (split_nl text) [])))"
  shows "join_nl (wrap_lines cw limit (split_nl l) []) = l"
proof -
  let ?out = "wrap_lines cw limit (split_nl text) []"
  have nn: "\<forall>k \<in> set ?out. newline \<notin> set k"
    by (rule wrap_lines_no_newline) (auto dest: split_nl_no_newline)
  have "length (split_nl text) \<le> length ?out"
    using wrap_lines_length [of "[]" "split_nl text" cw limit] by simp
  with split_nl_nonempty [of "text"] have "?out \<noteq> []" by (cases "split_nl text") auto
  with nn have "split_nl (join_nl ?out) = ?out" by (simp add: split_join_nl)
  with assms have mem: "l \<in> set ?out" by simp
  have "\<forall>k \<in> set ?out. \<exists>v. settled cw limit k v"
    by (rule wrap_lines_settled) simp
  with mem obtain v where "settled cw limit l v" by auto
  moreover from nn mem have "newline \<notin> set l" by auto
  ultimately show ?thesis by (rule settled_rewrap)
qed

text \<open>
  Claim C10. Wrapping never alters the text content: with every newline removed, the output
  of \<open>_fitz_char_wrap_text\<close> and of \<open>_char_wrap_text\<close> equals the input with every
  newline removed, for every text, width, font size, font name and font metrics.
\<close>

theorem wrap_preserves_content:
  "filter (\<lambda>c. c \<noteq> newline) (fitz_char_wrap_text m text max_width fontsize fontname)
     = filter (\<lambda>c. c \<noteq> newline) text
   \<and> filter (\<lambda>c. c \<noteq> newline) (char_wrap_text m text max_width fontsize fontname)
     = filter (\<lambda>c. c \<noteq> newline) text"
  by (simp add: fitz_char_wrap_text_def char_wrap_text_def Let_def filter_join_nl
      wrap_lines_concat concat_split_nl)

text \<open>
  Claim C7. Character-wrap idempotence: every line of the output of
  \<open>_fitz_char_wrap_text\<close>, wrapped again with the same width, font size and font name,
  comes back unchanged. The statement holds for every width and size (for a non-positive
  width or size the function returns its argument), so in particular for positive ones.
\<close>

theorem fitz_char_wrap_idempotent:
  assumes "l \<in> set (split_nl (fitz_char_wrap_text m text max_width fontsize fontname))"
  shows "fitz_char_wrap_text m l max_width fontsize fontname = l"
proof (cases "text = [] \<or> max_width \<le> 0 \<or> fontsize \<le> 0")
  case True
  then show ?thesis using assms by (auto simp: fitz_char_wrap_text_def)
next
  case False
  define limit where "limit = (if max_width - 4 \<le> 0 then max_width else max_width - 4)"
  define cw where "cw = char_width m fontname fontsize"
  from False assms
  have "l \<in> set (split_nl (join_nl (wrap_lines cw limit (split_nl text) [])))"
    by (simp add: fitz_char_wrap_text_def Let_def limit_def cw_def)
  then have "join_nl (wrap_lines cw limit (split_nl l) []) = l"
    by (rule wrapped_lines_fixed)
  with False show ?thesis
    by (simp add: fitz_char_wrap_text_def Let_def limit_def cw_def)
qed

lemma fixed_pitch_wrap_line:
  "''def'' \<in> set (split_nl (fitz_char_wrap_text fixed_pitch ''abcdefgh'' 22 12 ''helv''))"
  by code_simp

theorem fitz_char_wrap_idempotent_witness:
  "''def'' \<in> set (split_nl (fitz_char_wrap_text fixed_pitch ''abcdefgh'' 22 12 ''helv''))
   \<and> fitz_char_wrap_text fixed_pitch ''def'' 22 12 ''helv'' = ''def''"
  using fitz_char_wrap_idempotent [OF fixed_pitch_wrap_line] fixed_pitch_wrap_line by simp

section \<open>Verification: stamp resize\<close>





section \<open>Verification: line-text reconstruction\<close>





section \<open>Verification: render cache\<close>

text \<open>
  Claim C1. Stale render results are never cached: when a completion is delivered for a key
  that differs from \<open>(page_index, round(self._zoom, 3))\<close>, \<open>_on_render_finished\<close> leaves
  the high-res cache and the low-res cache as they were.
\<close>

theorem stale_render_discarded:
  assumes "k \<noteq> (page_index, py_round3 (zoom w))"
  shows "render_cache (on_render_finished img is_high_res page_index k w) = render_cache w
       \<and> low_res_cache (on_render_finished img is_high_res page_index k w) = low_res_cache w"
  using assms by (simp add: on_render_finished_def current_key_def Let_def)

theorem stale_render_discarded_witness:
  "(0, 1) \<noteq> (0, py_round3 (zoom (set_zoom 2 (on_render_finished (Image 7) True 0 (0, 1) init_widget))))
   \<and> render_cache (on_render_finished (Image 8) True 0 (0, 1)
        (set_zoom 2 (on_render_finished (Image 7) True 0 (0, 1) init_widget))) = [((0, 1), 7)]
   \<and> low_res_cache (on_render_finished (Image 8) True 0 (0, 1)
        (set_zoom 2 (on_render_finished (Image 7) True 0 (0, 1) init_widget))) = []"
proof -
  have z: "zoom (set_zoom 2 (on_render_finished (Image 7) True 0 (0, 1) init_widget)) = 2"
    by code_simp
  have r: "py_round3 2 = 2" by code_simp
  have stale: "((0::int, 1::rat)) \<noteq> (0, py_round3 (zoom (set_zoom 2 (on_render_finished (Image 7) True 0 (0, 1) init_widget))))"
    by (simp add: z r)
  have c: "render_cache (set_zoom 2 (on_render_finished (Image 7) True 0 (0, 1) init_widget)) = [((0, 1), 7)]"
    by code_simp
  have l: "low_res_cache (set_zoom 2 (on_render_finished (Image 7) True 0 (0, 1) init_widget)) = []"
    by code_simp
  from stale_render_discarded [OF stale, of "Image 8" True] stale c l show ?thesis by simp
qed

text \<open>
  Claim C3 says that \<open>invalidate_all_pages\<close> empties both tiers. The function clears
  \<open>_render_cache\<close> only: a low-res preview delivered before the call is still in
  \<open>_low_res_cache\<close> after it, whereas \<open>set_document\<close> and \<open>_invalidate_page\<close> treat
  both tiers.
\<close>

theorem invalidate_all_pages_keeps_low_res:
  "low_res_cache
     (invalidate_all_pages
        (run_events [SetDocument (Some (blank_doc 2)) ''a.pdf'' False,
                     GetPagePixmap 0 612 792,
                     OnRenderFinished (Image 5) False 0 (0, 1)] init_widget))
     = [((0, 1), 5)]"
  by code_simp

lemma invalidate_all_pages_effect:
  "render_cache (invalidate_all_pages w) = [] \<and> low_res_cache (invalidate_all_pages w) = low_res_cache w"
  by (simp add: invalidate_all_pages_def)

section \<open>Verification: layout\<close>

lemma py_int_nonneg: "0 \<le> x \<Longrightarrow> 0 \<le> py_int x"
  by (simp add: py_int_def)

lemma height_nonneg: "0 \<le> height r"
  by (simp add: height_def)

lemma layout_pages_length:
  "length (fst (layout_pages z rs y (offs, hs))) = length offs + length rs"
  by (induction rs arbitrary: y offs hs) (auto simp: Let_def)

lemma layout_pages_sorted:
  assumes "0 \<le> z" and "sorted_wrt (<) offs" and "\<forall>v \<in> set offs. v < y"
  shows "sorted_wrt (<) (fst (layout_pages z rs y (offs, hs)))"
  using assms(2,3)
proof (induction rs arbitrary: y offs hs)
  case Nil
  then show ?case by simp
next
  case (Cons r rs)
  have h: "0 \<le> py_int (height r * z)"
    using assms(1) height_nonneg [of r] by (intro py_int_nonneg) simp
  have s: "sorted_wrt (<) (offs @ [y])"
    using Cons.prems by (simp add: sorted_wrt_append)
  have b: "\<forall>v \<in> set (offs @ [y]). v < y + py_int (height r * z) + PAGE_GAP"
    using Cons.prems(2) h by (auto simp: PAGE_GAP_def)
  from Cons.IH [OF s b] show ?case by (simp add: Let_def)
qed

lemma bisect_loop_bounds:
  assumes "sorted a" and "lo \<le> hi" and "hi \<le> length a"
    and "\<forall>j < lo. a ! j \<le> x" and "\<forall>j. hi \<le> j \<and> j < length a \<longrightarrow> x < a ! j"
  shows "bisect_loop a x lo hi \<le> length a
       \<and> (\<forall>j < bisect_loop a x lo hi. a ! j \<le> x)
       \<and> (\<forall>j. bisect_loop a x lo hi \<le> j \<and> j < length a \<longrightarrow> x < a ! j)"
  using assms
proof (induction a x lo hi rule: bisect_loop.induct)
  case (1 a x lo hi)
  show ?case
  proof (cases "lo < hi")
    case False
    with "1.prems" have "lo = hi" by simp
    with "1.prems" False show ?thesis by (subst bisect_loop.simps, subst (2) bisect_loop.simps, subst (3) bisect_loop.simps) simp
  next
    case True
    define mid where "mid = (lo + hi) div 2"
    have mid: "lo \<le> mid" "mid < hi" using True by (auto simp: mid_def)
    show ?thesis
    proof (cases "x < a ! mid")
      case left: True
      have ge: "\<forall>j. mid \<le> j \<and> j < length a \<longrightarrow> x < a ! j"
      proof (intro allI impI)
        fix j assume j: "mid \<le> j \<and> j < length a"
        with "1.prems"(1) have "a ! mid \<le> a ! j" by (simp add: sorted_nth_mono)
        with left show "x < a ! j" by simp
      qed
      have eq: "bisect_loop a x lo hi = bisect_loop a x lo mid"
        using True left by (subst bisect_loop.simps) (simp add: mid_def Let_def)
      from "1.IH"(1) [OF True mid_def left "1.prems"(1) mid(1) _ "1.prems"(4) ge]
        mid "1.prems"(3)
      show ?thesis unfolding eq by simp
    next
      case right: False
      have le: "\<forall>j < mid + 1. a ! j \<le> x"
      proof (intro allI impI)
        fix j assume j: "j < mid + 1"
        with mid "1.prems"(3) have "a ! j \<le> a ! mid"
          using "1.prems"(1) by (simp add: sorted_nth_mono)
        with right show "a ! j \<le> x" by simp
      qed
      have eq: "bisect_loop a x lo hi = bisect_loop a x (mid + 1) hi"
        using True right by (subst bisect_loop.simps) (simp add: mid_def Let_def)
      from "1.IH"(2) [OF True mid_def right "1.prems"(1) _ "1.prems"(3) le "1.prems"(5)] mid
      show ?thesis unfolding eq by simp
    qed
  qed
qed

lemma bisect_right_at:
  assumes "sorted_wrt (<) a" and "i < length a"
  shows "bisect_right a (a ! i) = Suc i"
proof -
  have s: "sorted a" using assms(1) by (simp add: sorted_wrt_mono_rel [of a "(<)" "(\<le>)"])
  define r where "r = bisect_right a (a ! i)"
  from bisect_loop_bounds [OF s, of 0 "length a" "a ! i"]
  have r1: "r \<le> length a" and r2: "\<forall>j < r. a ! j \<le> a ! i"
    and r3: "\<forall>j. r \<le> j \<and> j < length a \<longrightarrow> a ! i < a ! j"
    by (auto simp: r_def bisect_right_def)
  have "i < r"
  proof (rule ccontr)
    assume "\<not> i < r"
    then have "r \<le> i \<and> i < length a" using assms(2) by simp
    with r3 have "a ! i < a ! i" by blast
    then show False by simp
  qed
  moreover have "r \<le> Suc i"
  proof (rule ccontr)
    assume "\<not> r \<le> Suc i"
    then have lt: "Suc i < r" by simp
    with r2 have "a ! Suc i \<le> a ! i" by auto
    moreover from assms(1) lt r1 have "a ! i < a ! Suc i"
      by (simp add: sorted_wrt_nth_less)
    ultimately show False by simp
  qed
  ultimately show ?thesis by (simp add: r_def)
qed

text \<open>
  Claim C5. Layout offsets: for a loaded document (whose page rectangles the widget holds,
  as \<open>set_document\<close> stores them) and a zoom between 0.1 and 8, after
  \<open>_recalculate_layout\<close> the list \<open>page_offsets\<close> has one entry per page, is strictly
  increasing, and \<open>page_at_y(page_offsets[i]) = i\<close> for every page \<open>i\<close>.
\<close>

theorem layout_offsets_monotone:
  assumes "doc w = Some d" and "page_rects w = map p_rect d"
    and "1 / 10 \<le> zoom w" and "zoom w \<le> 8"
  shows "length (page_offsets (recalculate_layout w)) = length d
       \<and> (\<forall>i. Suc i < length d \<longrightarrow>
            page_offsets (recalculate_layout w) ! i < page_offsets (recalculate_layout w) ! Suc i)
       \<and> (\<forall>i < length d.
            page_at_y (recalculate_layout w) (page_offsets (recalculate_layout w) ! i) = int i)"
proof -
  define offs where "offs = fst (layout_pages (zoom w) (page_rects w) PAGE_GAP ([], []))"
  have res: "page_offsets (recalculate_layout w) = (if d = [] then [] else offs)"
    using assms(1,2)
    by (auto simp: recalculate_layout_def doc_truthy_def Let_def offs_def split: prod.splits)
  have len: "length offs = length d"
    using layout_pages_length [of "zoom w" "page_rects w" PAGE_GAP "[]" "[]"] assms(2)
    by (simp add: offs_def)
  have z: "0 \<le> zoom w" using assms(3) by simp
  have srt: "sorted_wrt (<) offs"
    unfolding offs_def by (rule layout_pages_sorted [OF z]) simp_all
  have po: "page_offsets (recalculate_layout w) = offs"
    using res len by (cases "d = []") auto
  have mono: "\<forall>i. Suc i < length d \<longrightarrow> offs ! i < offs ! Suc i"
    using srt len by (simp add: sorted_wrt_nth_less)
  have look: "\<forall>i < length d. page_at_y (recalculate_layout w) (offs ! i) = int i"
  proof (intro allI impI)
    fix i assume i: "i < length d"
    with len have "offs \<noteq> []" by auto
    moreover from i len have "bisect_right offs (offs ! i) = Suc i"
      by (intro bisect_right_at [OF srt]) simp
    ultimately show "page_at_y (recalculate_layout w) (offs ! i) = int i"
      using i len by (simp add: page_at_y_def po Let_def)
  qed
  from len mono look show ?thesis by (simp add: po)
qed

lemma two_pages_doc: "doc two_pages = Some (blank_doc 2)"
  by code_simp

lemma two_pages_rects: "page_rects two_pages = map p_rect (blank_doc 2)"
  by code_simp

lemma two_pages_zoom: "zoom two_pages = 1"
  by code_simp

theorem layout_offsets_monotone_witness:
  "doc two_pages = Some (blank_doc 2) \<and> page_rects two_pages = map p_rect (blank_doc 2)
   \<and> 1 / 10 \<le> zoom two_pages \<and> zoom two_pages \<le> 8
   \<and> length (page_offsets (recalculate_layout two_pages)) = 2
   \<and> page_offsets (recalculate_layout two_pages) ! 0 < page_offsets (recalculate_layout two_pages) ! 1
   \<and> page_at_y (recalculate_layout two_pages) (page_offsets (recalculate_layout two_pages) ! 1) = 1"
proof -
  have z: "1 / 10 \<le> zoom two_pages" "zoom two_pages \<le> 8" by (simp_all add: two_pages_zoom)
  have len: "length (blank_doc 2) = 2" by (simp add: blank_doc_def)
  from layout_offsets_monotone [OF two_pages_doc two_pages_rects z]
  have a: "length (page_offsets (recalculate_layout two_pages)) = length (blank_doc 2)"
    and b: "\<forall>i. Suc i < length (blank_doc 2) \<longrightarrow>
            page_offsets (recalculate_layout two_pages) ! i
              < page_offsets (recalculate_layout two_pages) ! Suc i"
    and c: "\<forall>i < length (blank_doc 2).
            page_at_y (recalculate_layout two_pages)
              (page_offsets (recalculate_layout two_pages) ! i) = int i"
    by blast+
  from b len have b0: "page_offsets (recalculate_layout two_pages) ! 0
              < page_offsets (recalculate_layout two_pages) ! 1" by simp
  from c len have c1: "page_at_y (recalculate_layout two_pages)
              (page_offsets (recalculate_layout two_pages) ! 1) = 1"
    by (metis One_nat_def lessI numeral_2_eq_2 of_nat_1)
  from a len b0 c1 z two_pages_doc two_pages_rects show ?thesis by simp
qed

section \<open>Verification: zoom\<close>

lemma round_half_even_bounds: "\<lfloor>x\<rfloor> \<le> round_half_even x \<and> round_half_even x \<le> \<lceil>x\<rceil>"
proof -
  have up: "x - of_int \<lfloor>x\<rfloor> \<ge> 1 / 2 \<Longrightarrow> \<lfloor>x\<rfloor> + 1 \<le> \<lceil>x\<rceil>"
    by (auto simp: ceiling_altdef)
  have "\<lfloor>x\<rfloor> \<le> \<lceil>x\<rceil>" by (simp add: ceiling_altdef)
  with up show ?thesis
    by (auto simp: round_half_even_def Let_def)
qed

lemma py_round3_in_range: "zoom_in_range z \<Longrightarrow> zoom_in_range (py_round3 z)"
proof -
  assume "zoom_in_range z"
  then have lo: "of_int 100 \<le> z * 1000" and hi: "z * 1000 \<le> of_int 8000"
    by (simp_all add: zoom_in_range_def)
  from lo have "100 \<le> \<lfloor>z * 1000\<rfloor>" by (simp only: le_floor_iff)
  moreover from hi have "\<lceil>z * 1000\<rceil> \<le> 8000" by (simp only: ceiling_le_iff)
  ultimately have "100 \<le> round_half_even (z * 1000)" and "round_half_even (z * 1000) \<le> 8000"
    using round_half_even_bounds [of "z * 1000"] by linarith+
  then have "(of_int 100 :: rat) \<le> of_int (round_half_even (z * 1000))"
    and "(of_int (round_half_even (z * 1000)) :: rat) \<le> of_int 8000"
    by (simp_all only: of_int_le_iff)
  then show ?thesis by (simp add: zoom_in_range_def py_round3_def)
qed

lemma clamp_in_range: "zoom_in_range (max (1 / 10) (min t 8))"
  by (simp add: zoom_in_range_def)

lemma lerp_in_range:
  assumes "zoom_in_range v" and "zoom_in_range t"
  shows "zoom_in_range (v + (t - v) * (22 / 100))"
proof -
  have "v + (t - v) * (22 / 100) = v * (78 / 100) + t * (22 / 100)" by (simp add: field_simps)
  moreover have "1 / 10 \<le> v * (78 / 100) + t * (22 / 100)"
    using assms unfolding zoom_in_range_def by linarith
  moreover have "v * (78 / 100) + t * (22 / 100) \<le> 8"
    using assms unfolding zoom_in_range_def by linarith
  ultimately show ?thesis by (simp only: zoom_in_range_def)
qed

lemma recalculate_layout_zoom [simp]:
  "zoom (recalculate_layout w) = zoom w"
  "zoom_target (recalculate_layout w) = zoom_target w"
  "visual_zoom (recalculate_layout w) = visual_zoom w"
  by (simp_all add: recalculate_layout_def Let_def split: prod.splits)

lemma zoom_ok_recalculate_layout: "zoom_ok (recalculate_layout w) = zoom_ok w"
  by (simp add: zoom_ok_def)

lemma zoom_ok_set_zoom: "zoom_ok w \<Longrightarrow> zoom_ok (set_zoom z w)"
  using clamp_in_range [of z]
  by (simp add: set_zoom_def Let_def zoom_ok_recalculate_layout) (simp add: zoom_ok_def)

lemma zoom_ok_wheelEvent: "zoom_ok w \<Longrightarrow> zoom_ok (wheelEvent ctrl pixel_y angle_y w)"
  using clamp_in_range by (simp add: wheelEvent_def Let_def zoom_ok_def)

lemma zoom_ok_lerp_zoom: "zoom_ok w \<Longrightarrow> zoom_ok (lerp_zoom w)"
  using lerp_in_range [of "visual_zoom w" "zoom_target w"]
  by (simp add: lerp_zoom_def Let_def zoom_ok_def)

lemma zoom_ok_on_zoom_finished: "zoom_ok w \<Longrightarrow> zoom_ok (on_zoom_finished w)"
  using py_round3_in_range [of "zoom_target w"]
  by (simp add: on_zoom_finished_def Let_def zoom_ok_def)

lemma zoom_ok_set_document: "zoom_ok w \<Longrightarrow> zoom_ok (set_document d path keep w)"
  by (simp add: set_document_def Let_def zoom_ok_def)

lemma zoom_ok_get_page_pixmap: "zoom_ok w \<Longrightarrow> zoom_ok (snd (get_page_pixmap p tw th w))"
  by (simp add: get_page_pixmap_def Let_def zoom_ok_def start_render_task_def
      split: option.splits)

lemma zoom_ok_on_render_finished: "zoom_ok w \<Longrightarrow> zoom_ok (on_render_finished img hr p k w)"
  by (simp add: on_render_finished_def Let_def zoom_ok_def split: qimage.splits)

lemma zoom_ok_step: "zoom_ok w \<Longrightarrow> zoom_ok (step e w)"
proof (cases e)
  case (SetDocument d path keep)
  assume "zoom_ok w"
  with SetDocument show ?thesis by (simp add: zoom_ok_set_document)
next
  case (SetZoom z)
  assume "zoom_ok w"
  with SetZoom show ?thesis by (simp add: zoom_ok_set_zoom)
next
  case (WheelEvent ctrl pixel_y angle_y)
  assume "zoom_ok w"
  with WheelEvent show ?thesis by (simp add: zoom_ok_wheelEvent)
next
  case LerpZoom
  assume "zoom_ok w"
  with LerpZoom show ?thesis by (simp add: zoom_ok_lerp_zoom)
next
  case OnZoomFinished
  assume "zoom_ok w"
  with OnZoomFinished show ?thesis by (simp add: zoom_ok_on_zoom_finished)
next
  case OnZoomSettled
  assume "zoom_ok w"
  with OnZoomSettled show ?thesis by (simp add: on_zoom_settled_def zoom_ok_def)
next
  case (GetPagePixmap p tw th)
  assume "zoom_ok w"
  with GetPagePixmap show ?thesis by (simp add: zoom_ok_get_page_pixmap)
next
  case (OnRenderFinished img hr p k)
  assume "zoom_ok w"
  with OnRenderFinished show ?thesis by (simp add: zoom_ok_on_render_finished)
next
  case (InvalidatePage p)
  assume "zoom_ok w"
  with InvalidatePage show ?thesis by (simp add: invalidate_page_def zoom_ok_def)
next
  case InvalidateAllPages
  assume "zoom_ok w"
  with InvalidateAllPages show ?thesis by (simp add: invalidate_all_pages_def zoom_ok_def)
qed

lemma zoom_ok_run: "zoom_ok w \<Longrightarrow> zoom_ok (run_events evs w)"
  unfolding run_events_def
  by (induction evs arbitrary: w) (auto simp: zoom_ok_step)

lemma zoom_ok_init: "zoom_ok init_widget"
  by (simp add: zoom_ok_def zoom_in_range_def init_widget_def)

text \<open>
  Claim C6. Zoom clamp: after every sequence of \<open>set_zoom\<close> calls, wheel events,
  interpolation ticks and debounce commits (interleaved with the other events of the
  model), the committed zoom, the target zoom and the visual zoom lie within 0.1 and 8.
\<close>

theorem zoom_clamp:
  "1 / 10 \<le> zoom (run_events evs init_widget) \<and> zoom (run_events evs init_widget) \<le> 8
   \<and> 1 / 10 \<le> zoom_target (run_events evs init_widget) \<and> zoom_target (run_events evs init_widget) \<le> 8
   \<and> 1 / 10 \<le> visual_zoom (run_events evs init_widget) \<and> visual_zoom (run_events evs init_widget) \<le> 8"
  using zoom_ok_run [OF zoom_ok_init, of evs] by (simp add: zoom_ok_def zoom_in_range_def)


theorem zoom_clamp_witness:
  "1 / 10 \<le> zoom (run_events [SetZoom 100, WheelEvent True 0 120, LerpZoom, OnZoomFinished] init_widget)
   \<and> zoom_target (run_events [SetZoom 100, WheelEvent True 0 120, LerpZoom, OnZoomFinished] init_widget) = 8"
proof -
  have "zoom_target (run_events [SetZoom 100, WheelEvent True 0 120, LerpZoom, OnZoomFinished] init_widget) = 8"
    by code_simp
  with zoom_clamp [of "[SetZoom 100, WheelEvent True 0 120, LerpZoom, OnZoomFinished]"]
  show ?thesis by simp
qed

section \<open>Verification: interaction modes\<close>










section \<open>Verification: cache capacity and eviction order\<close>

lemma od_trim_drop: "od_trim cap xs = drop (length xs - cap) xs"
proof (induction xs)
  case Nil
  show ?case by simp
next
  case (Cons e rest)
  show ?case
  proof (cases "length (e # rest) > cap")
    case True
    then have "length (e # rest) - cap = Suc (length rest - cap)" by simp
    with True Cons.IH show ?thesis by simp
  next
    case False
    then show ?thesis by simp
  qed
qed

lemma od_trim_length: "length (od_trim cap xs) \<le> cap"
  by (simp add: od_trim_drop)

lemma od_trim_map: "map f (od_trim cap xs) = od_trim cap (map f xs)"
  by (simp add: od_trim_drop drop_map)

lemma od_set_keys:
  "map fst (od_set k v od) = (if k \<in> set (map fst od) then map fst od else map fst od @ [k])"
  by (induction od) force+

lemma od_set_lookup: "map_of (od_set k v od) k = Some v"
  by (induction od) auto

lemma od_del_keys: "map fst (od_del k od) = filter (\<lambda>x. x \<noteq> k) (map fst od)"
  by (simp add: od_del_def filter_map comp_def)

lemma od_move_to_end_keys:
  "map fst (od_move_to_end k od) =
     (if k \<in> set (map fst od) then filter (\<lambda>x. x \<noteq> k) (map fst od) @ [k] else map fst od)"
proof (cases "map_of od k")
  case None
  then have "k \<notin> fst ` set od" by (simp add: map_of_eq_None_iff)
  with None show ?thesis by (simp add: od_move_to_end_def)
next
  case (Some v)
  then have "(k, v) \<in> set od" by (rule map_of_SomeD)
  then have "k \<in> fst ` set od" by force
  with Some show ?thesis by (simp add: od_move_to_end_def od_del_keys)
qed

lemma stored_keys:
  "map fst (od_move_to_end k (od_set k v od)) = filter (\<lambda>x. x \<noteq> k) (map fst od) @ [k]"
proof -
  have "k \<in> set (map fst (od_set k v od))" by (simp add: od_set_keys)
  moreover have "filter (\<lambda>x. x \<noteq> k) (map fst (od_set k v od)) = filter (\<lambda>x. x \<noteq> k) (map fst od)"
    by (simp add: od_set_keys)
  ultimately show ?thesis by (simp only: od_move_to_end_keys if_True)
qed

lemma filter_keys_map:
  "map fst (filter (\<lambda>e. fst (fst e) \<noteq> p) od) = filter (\<lambda>x. fst x \<noteq> p) (map fst od)"
  by (induction od) auto

lemma recalculate_layout_caches [simp]:
  "render_cache (recalculate_layout w) = render_cache w"
  "low_res_cache (recalculate_layout w) = low_res_cache w"
  by (simp_all add: recalculate_layout_def Let_def split: prod.splits)

lemma hi_keys_on_render_finished:
  "hi_keys (on_render_finished img hr p k w) =
     (if hr \<and> img \<noteq> NullImage \<and> k = current_key w p
      then od_trim 30 (filter (\<lambda>x. x \<noteq> k) (hi_keys w) @ [k]) else hi_keys w)"
  by (cases img)
     (simp_all add: on_render_finished_def Let_def current_key_def hi_keys_def
        od_trim_map stored_keys)

lemma filter_absent: "k \<notin> set ks \<Longrightarrow> filter (\<lambda>x. x \<noteq> k) ks = ks"
  by (auto simp: filter_id_conv)

lemma lo_keys_on_render_finished:
  "lo_keys (on_render_finished img hr p k w) =
     (if img \<noteq> NullImage \<and> k = current_key w p
      then (if hr then filter (\<lambda>x. x \<noteq> k) (lo_keys w)
            else od_trim 150 (if k \<in> set (lo_keys w) then lo_keys w else lo_keys w @ [k]))
      else lo_keys w)"
proof (cases img)
  case NullImage
  then show ?thesis by (simp add: on_render_finished_def Let_def lo_keys_def)
next
  case (Image pm)
  from Image show ?thesis
    by (simp add: on_render_finished_def Let_def current_key_def lo_keys_def
        od_trim_map od_set_keys od_del_keys filter_absent)
qed

lemma map_of_keys: "(map_of od k = None) = (k \<notin> set (map fst od))"
  by (simp add: map_of_eq_None_iff)

lemma hi_keys_get_page_pixmap:
  "hi_keys (snd (get_page_pixmap p tw th w)) =
     (if current_key w p \<in> set (hi_keys w)
      then filter (\<lambda>x. x \<noteq> current_key w p) (hi_keys w) @ [current_key w p] else hi_keys w)"
proof (cases "map_of (render_cache w) (current_key w p)")
  case None
  then have "current_key w p \<notin> set (hi_keys w)" by (simp add: map_of_keys hi_keys_def)
  with None show ?thesis
    by (simp add: get_page_pixmap_def Let_def hi_keys_def start_render_task_def
        split: option.splits)
next
  case (Some pm)
  then have "current_key w p \<in> set (hi_keys w)"
    using map_of_keys [of "render_cache w" "current_key w p"] by (simp add: hi_keys_def)
  with Some show ?thesis
    by (simp add: get_page_pixmap_def Let_def hi_keys_def od_move_to_end_keys)
qed

lemma lo_keys_get_page_pixmap: "lo_keys (snd (get_page_pixmap p tw th w)) = lo_keys w"
  by (simp add: get_page_pixmap_def Let_def lo_keys_def start_render_task_def
      split: option.splits)

lemma ordered_by_Nil: "ordered_by f c []"
  by (simp add: ordered_by_def)

lemma ordered_by_clock: "ordered_by f c ks \<Longrightarrow> ordered_by f (Suc c) ks"
  by (auto simp: ordered_by_def list_all_iff)

lemma ordered_by_filter: "ordered_by f c ks \<Longrightarrow> ordered_by f c (filter P ks)"
proof -
  assume a: "ordered_by f c ks"
  then have "sorted_wrt (<) (map f ks)" by (simp add: ordered_by_def)
  then have "sorted_wrt (\<lambda>x y. f x < f y) ks" by (simp add: sorted_wrt_map)
  then have "sorted_wrt (\<lambda>x y. f x < f y) (filter P ks)" by (rule sorted_wrt_filter)
  then have "sorted_wrt (<) (map f (filter P ks))" by (simp add: sorted_wrt_map)
  with a show ?thesis by (auto simp: ordered_by_def list_all_iff)
qed

lemma ordered_by_drop: "ordered_by f c ks \<Longrightarrow> ordered_by f c (drop n ks)"
proof -
  assume a: "ordered_by f c ks"
  then have "sorted_wrt (<) (drop n (map f ks))" by (simp add: ordered_by_def sorted_wrt_drop)
  with a show ?thesis
    by (auto simp: ordered_by_def list_all_iff drop_map dest: in_set_dropD)
qed

lemma ordered_by_trim: "ordered_by f c ks \<Longrightarrow> ordered_by f c (od_trim cap ks)"
  by (simp add: od_trim_drop ordered_by_drop)

lemma ordered_by_other:
  assumes "ordered_by f c ks" and "k \<notin> set ks"
  shows "ordered_by (f(k := t)) c ks"
proof -
  from assms(2) have "map (f(k := t)) ks = map f ks" by (induction ks) auto
  with assms show ?thesis by (auto simp: ordered_by_def list_all_iff)
qed

lemma ordered_by_touch:
  assumes "ordered_by f c ks"
  shows "ordered_by (f(k := Suc c)) (Suc c) (filter (\<lambda>x. x \<noteq> k) ks @ [k])"
proof -
  let ?rest = "filter (\<lambda>x. x \<noteq> k) ks"
  let ?f = "f(k := Suc c)"
  have r: "ordered_by f c ?rest" using assms by (rule ordered_by_filter)
  have "k \<notin> set ?rest" by simp
  with r have r': "ordered_by ?f c ?rest" by (rule ordered_by_other)
  then have srt: "sorted_wrt (<) (map ?f ?rest)"
    and le: "\<forall>x \<in> set ?rest. ?f x \<le> c"
    unfolding ordered_by_def list_all_iff by blast+
  from le have lt: "\<forall>x \<in> set ?rest. ?f x < Suc c"
    using le_imp_less_Suc by blast
  have last: "?f k = Suc c" by simp
  have "sorted_wrt (<) (map ?f (?rest @ [k]))"
    using srt lt last by (simp only: map_append sorted_wrt_append list.map set_map) auto
  moreover have "\<forall>x \<in> set (?rest @ [k]). ?f x \<le> Suc c"
  proof
    fix x assume "x \<in> set (?rest @ [k])"
    then have "x \<in> set ?rest \<or> x = k" by auto
    then show "?f x \<le> Suc c"
    proof
      assume "x \<in> set ?rest"
      with lt have "?f x < Suc c" by blast
      then show ?thesis by (rule less_imp_le)
    next
      assume "x = k"
      with last show ?thesis by (simp only: le_refl)
    qed
  qed
  ultimately show ?thesis unfolding ordered_by_def list_all_iff by blast
qed

lemma touch_length:
  "k \<in> set ks \<Longrightarrow> length (filter (\<lambda>x. x \<noteq> k) ks @ [k]) \<le> length ks"
  using length_filter_less [of k ks "\<lambda>x. x \<noteq> k"] by simp

lemma note_use_fields [simp]:
  "clock (note_use e w g) = Suc (clock g)"
  "hi_used (note_use e w g) = stamp_key (hi_use e w) (Suc (clock g)) (hi_used g)"
  "lo_used (note_use e w g) = stamp_key (lo_use e w) (Suc (clock g)) (lo_used g)"
  "lo_born (note_use e w g) =
     (case lo_store e w of None \<Rightarrow> lo_born g
      | Some k \<Rightarrow> if k \<in> set (lo_keys w) then lo_born g else (lo_born g)(k := Suc (clock g)))"
  by (simp_all add: note_use_def)

lemma hi_keys_other [simp]:
  "hi_keys (set_document d path keep w) = []"
  "hi_keys (set_zoom z w) = hi_keys w"
  "hi_keys (wheelEvent ctrl py ay w) = hi_keys w"
  "hi_keys (lerp_zoom w) = hi_keys w"
  "hi_keys (on_zoom_finished w) = hi_keys w"
  "hi_keys (on_zoom_settled w) = hi_keys w"
  "hi_keys (invalidate_page p w) = filter (\<lambda>x. fst x \<noteq> p) (hi_keys w)"
  "hi_keys (invalidate_all_pages w) = []"
  by (simp_all add: hi_keys_def set_document_def set_zoom_def wheelEvent_def lerp_zoom_def
      on_zoom_finished_def on_zoom_settled_def invalidate_page_def invalidate_all_pages_def
      Let_def filter_keys_map)

lemma lo_keys_other [simp]:
  "lo_keys (set_document d path keep w) = []"
  "lo_keys (set_zoom z w) = lo_keys w"
  "lo_keys (wheelEvent ctrl py ay w) = lo_keys w"
  "lo_keys (lerp_zoom w) = lo_keys w"
  "lo_keys (on_zoom_finished w) = lo_keys w"
  "lo_keys (on_zoom_settled w) = lo_keys w"
  "lo_keys (invalidate_page p w) = filter (\<lambda>x. fst x \<noteq> p) (lo_keys w)"
  "lo_keys (invalidate_all_pages w) = lo_keys w"
  by (simp_all add: lo_keys_def set_document_def set_zoom_def wheelEvent_def lerp_zoom_def
      on_zoom_finished_def on_zoom_settled_def invalidate_page_def invalidate_all_pages_def
      Let_def filter_keys_map)

lemma hi_tier_step:
  assumes o: "ordered_by (hi_used g) (clock g) (hi_keys w)" and l: "length (hi_keys w) \<le> 30"
  shows "ordered_by (hi_used (note_use e w g)) (clock (note_use e w g)) (hi_keys (step e w))
       \<and> length (hi_keys (step e w)) \<le> 30"
proof (cases e)
  case (OnRenderFinished img hr p k)
  show ?thesis
  proof (cases "hr \<and> img \<noteq> NullImage \<and> k = current_key w p")
    case True
    with OnRenderFinished ordered_by_trim [OF ordered_by_touch [OF o, of k], of 30]
    show ?thesis
      by (simp add: hi_keys_on_render_finished stamp_key_def od_trim_length)
  next
    case False
    with OnRenderFinished ordered_by_clock [OF o] l show ?thesis
      by (auto simp: hi_keys_on_render_finished stamp_key_def)
  qed
next
  case (GetPagePixmap p tw th)
  show ?thesis
  proof (cases "current_key w p \<in> set (hi_keys w)")
    case True
    with GetPagePixmap ordered_by_touch [OF o, of "current_key w p"]
      touch_length [OF True] l
    show ?thesis by (simp add: hi_keys_get_page_pixmap stamp_key_def)
  next
    case False
    with GetPagePixmap ordered_by_clock [OF o] l show ?thesis
      by (simp add: hi_keys_get_page_pixmap stamp_key_def)
  qed
next
  case (InvalidatePage p)
  have "length (filter (\<lambda>x. fst x \<noteq> p) (hi_keys w)) \<le> 30"
    using l by (rule le_trans [OF length_filter_le])
  with InvalidatePage ordered_by_clock [OF ordered_by_filter [OF o]] show ?thesis
    by (simp add: stamp_key_def)
qed (use ordered_by_clock [OF o] l in \<open>simp_all add: stamp_key_def ordered_by_Nil\<close>)

lemma lo_store_cases:
  "lo_store e w = (case e of
      OnRenderFinished img hr p k \<Rightarrow>
        if \<not> hr \<and> img \<noteq> NullImage \<and> k = current_key w p then Some k else None
    | _ \<Rightarrow> None)"
  by (cases e) simp_all

lemma lo_tier_step:
  assumes o: "ordered_by (lo_born g) (clock g) (lo_keys w)" and l: "length (lo_keys w) \<le> 150"
  shows "ordered_by (lo_born (note_use e w g)) (clock (note_use e w g)) (lo_keys (step e w))
       \<and> length (lo_keys (step e w)) \<le> 150"
proof (cases e)
  case (OnRenderFinished img hr p k)
  show ?thesis
  proof (cases "img \<noteq> NullImage \<and> k = current_key w p")
    case False
    with OnRenderFinished ordered_by_clock [OF o] l show ?thesis
      by (auto simp: lo_keys_on_render_finished)
  next
    case fresh: True
    show ?thesis
    proof (cases hr)
      case True
      have "length (filter (\<lambda>x. x \<noteq> k) (lo_keys w)) \<le> 150"
        using l by (rule le_trans [OF length_filter_le])
      with True fresh OnRenderFinished ordered_by_clock [OF ordered_by_filter [OF o]]
      show ?thesis by (simp add: lo_keys_on_render_finished)
    next
      case False
      show ?thesis
      proof (cases "k \<in> set (lo_keys w)")
        case True
        with False fresh OnRenderFinished ordered_by_trim [OF ordered_by_clock [OF o], of 150]
        show ?thesis by (simp add: lo_keys_on_render_finished od_trim_length)
      next
        case absent: False
        from ordered_by_touch [OF o, of k] absent
        have "ordered_by ((lo_born g)(k := Suc (clock g))) (Suc (clock g)) (lo_keys w @ [k])"
          by (simp add: filter_absent)
        then have "ordered_by ((lo_born g)(k := Suc (clock g))) (Suc (clock g))
                     (od_trim 150 (lo_keys w @ [k]))"
          by (rule ordered_by_trim)
        with False fresh absent OnRenderFinished show ?thesis
          by (simp add: lo_keys_on_render_finished od_trim_length)
      qed
    qed
  qed
next
  case (GetPagePixmap p tw th)
  with ordered_by_clock [OF o] l show ?thesis by (simp add: lo_keys_get_page_pixmap)
next
  case (InvalidatePage p)
  have "length (filter (\<lambda>x. fst x \<noteq> p) (lo_keys w)) \<le> 150"
    using l by (rule le_trans [OF length_filter_le])
  with InvalidatePage ordered_by_clock [OF ordered_by_filter [OF o]] show ?thesis
    by simp
qed (use ordered_by_clock [OF o] l in \<open>simp_all add: ordered_by_Nil\<close>)

lemma run_tracked_snoc: "run_tracked (evs @ [e]) = tracked_step e (run_tracked evs)"
  by (simp add: run_tracked_def)

lemma run_tracked_inv:
  "ordered_by (hi_used (snd (run_tracked evs))) (clock (snd (run_tracked evs)))
     (hi_keys (fst (run_tracked evs)))
   \<and> length (hi_keys (fst (run_tracked evs))) \<le> 30
   \<and> ordered_by (lo_born (snd (run_tracked evs))) (clock (snd (run_tracked evs)))
     (lo_keys (fst (run_tracked evs)))
   \<and> length (lo_keys (fst (run_tracked evs))) \<le> 150"
proof (induction evs rule: rev_induct)
  case Nil
  show ?case
    by (simp add: run_tracked_def init_widget_def init_usage_def hi_keys_def lo_keys_def
        ordered_by_Nil)
next
  case (snoc e evs)
  from snoc hi_tier_step [of "snd (run_tracked evs)" "fst (run_tracked evs)" e]
    lo_tier_step [of "snd (run_tracked evs)" "fst (run_tracked evs)" e]
  show ?case by (simp add: run_tracked_snoc tracked_step_def)
qed

text \<open>
  What a trim to the capacity can remove from an ordered tier that was within its capacity
  and has just received a key at its end: nothing but the entry with the smallest stamp.
\<close>

lemma trimmed_is_oldest:
  assumes o: "ordered_by f c ks" and l: "length ks \<le> cap"
    and ke: "ke \<in> set ks" and gone: "ke \<notin> set (od_trim cap (filter (\<lambda>x. x \<noteq> k) ks @ [k]))"
    and kr: "kr \<in> set ks"
  shows "f ke \<le> f kr"
proof (cases "k \<in> set ks")
  case True
  then have "length (filter (\<lambda>x. x \<noteq> k) ks @ [k]) \<le> length ks" by (rule touch_length)
  with l have "od_trim cap (filter (\<lambda>x. x \<noteq> k) ks @ [k]) = filter (\<lambda>x. x \<noteq> k) ks @ [k]"
    by (simp add: od_trim_drop)
  with gone ke show ?thesis by auto
next
  case False
  then have eq: "filter (\<lambda>x. x \<noteq> k) ks @ [k] = ks @ [k]" by (simp add: filter_absent)
  show ?thesis
  proof (cases "length ks < cap")
    case True
    then have "od_trim cap (ks @ [k]) = ks @ [k]" by (simp add: od_trim_drop)
    with gone ke eq show ?thesis by simp
  next
    case full: False
    with l have len: "length ks = cap" by simp
    from ke obtain h t where ks: "ks = h # t" by (cases ks) auto
    from len ks have "od_trim cap (ks @ [k]) = t @ [k]" by (simp add: od_trim_drop)
    with gone eq have "ke \<notin> set t" by simp
    with ke ks have h: "ke = h" by simp
    from o ks have "\<forall>x \<in> set t. f h < f x" by (simp add: ordered_by_def)
    with kr ks h show ?thesis by auto
  qed
qed

lemma untrimmed_keeps:
  assumes "length ks \<le> cap" and "ke \<in> set ks"
  shows "ke \<in> set (od_trim cap ks)"
  using assms by (simp add: od_trim_drop)

text \<open>
  Claim C2, amended. Cache capacity and eviction order: after every sequence of events,
  and after a render completion handled in the state reached, the high-res cache holds at
  most 30 entries and the low-res cache at most 150. An entry that a completion removes
  from the high-res tier is the least recently used entry of that tier, an entry being used
  when a completion stores it and when \<open>_get_page_pixmap\<close> finds it under its key. An
  entry that a low-res completion removes from the low-res tier is the one that entered
  the tier first: storing a key that is present, or reading it, does not renew it.
\<close>

theorem cache_capacity_and_eviction:
  "length (render_cache (fst (run_tracked evs))) \<le> 30
   \<and> length (low_res_cache (fst (run_tracked evs))) \<le> 150
   \<and> length (render_cache (on_render_finished img hr p k (fst (run_tracked evs)))) \<le> 30
   \<and> length (low_res_cache (on_render_finished img hr p k (fst (run_tracked evs)))) \<le> 150
   \<and> (ke \<in> set (hi_keys (fst (run_tracked evs)))
        \<and> ke \<notin> set (hi_keys (on_render_finished img hr p k (fst (run_tracked evs))))
        \<and> kr \<in> set (hi_keys (fst (run_tracked evs)))
        \<longrightarrow> hi_used (snd (run_tracked evs)) ke \<le> hi_used (snd (run_tracked evs)) kr)
   \<and> (\<not> hr \<and> ke \<in> set (lo_keys (fst (run_tracked evs)))
        \<and> ke \<notin> set (lo_keys (on_render_finished img hr p k (fst (run_tracked evs))))
        \<and> kr \<in> set (lo_keys (fst (run_tracked evs)))
        \<longrightarrow> lo_born (snd (run_tracked evs)) ke \<le> lo_born (snd (run_tracked evs)) kr)"
proof -
  define w where "w = fst (run_tracked evs)"
  define g where "g = snd (run_tracked evs)"
  define w' where "w' = on_render_finished img hr p k w"
  from run_tracked_inv [of evs]
  have oh: "ordered_by (hi_used g) (clock g) (hi_keys w)" and lh: "length (hi_keys w) \<le> 30"
    and ol: "ordered_by (lo_born g) (clock g) (lo_keys w)" and ll: "length (lo_keys w) \<le> 150"
    by (simp_all add: w_def g_def)
  from run_tracked_inv [of "evs @ [OnRenderFinished img hr p k]"]
  have lh': "length (hi_keys w') \<le> 30" and ll': "length (lo_keys w') \<le> 150"
    by (simp_all add: run_tracked_snoc tracked_step_def w_def w'_def)
  have hi: "hi_used g ke \<le> hi_used g kr"
    if a: "ke \<in> set (hi_keys w)" "ke \<notin> set (hi_keys w')" "kr \<in> set (hi_keys w)"
  proof (cases "hr \<and> img \<noteq> NullImage \<and> k = current_key w p")
    case True
    with a(2) have "ke \<notin> set (od_trim 30 (filter (\<lambda>x. x \<noteq> k) (hi_keys w) @ [k]))"
      by (simp add: w'_def hi_keys_on_render_finished)
    from trimmed_is_oldest [OF oh lh a(1) this a(3)] show ?thesis .
  next
    case False
    with a(1,2) show ?thesis by (simp add: w'_def hi_keys_on_render_finished)
  qed
  have lo: "lo_born g ke \<le> lo_born g kr"
    if a: "\<not> hr" "ke \<in> set (lo_keys w)" "ke \<notin> set (lo_keys w')" "kr \<in> set (lo_keys w)"
  proof (cases "img \<noteq> NullImage \<and> k = current_key w p")
    case False
    with a(2,3) show ?thesis by (simp add: w'_def lo_keys_on_render_finished)
  next
    case fresh: True
    show ?thesis
    proof (cases "k \<in> set (lo_keys w)")
      case True
      with fresh a(1) have "lo_keys w' = od_trim 150 (lo_keys w)"
        by (simp add: w'_def lo_keys_on_render_finished)
      with untrimmed_keeps [OF ll a(2)] a(3) show ?thesis by simp
    next
      case False
      with fresh a(1) have "lo_keys w' = od_trim 150 (filter (\<lambda>x. x \<noteq> k) (lo_keys w) @ [k])"
        by (simp add: w'_def lo_keys_on_render_finished filter_absent)
      with a(3) have "ke \<notin> set (od_trim 150 (filter (\<lambda>x. x \<noteq> k) (lo_keys w) @ [k]))"
        by simp
      from trimmed_is_oldest [OF ol ll a(2) this a(4)] show ?thesis .
    qed
  qed
  from lh ll lh' ll' hi lo show ?thesis
    unfolding w_def [symmetric] g_def [symmetric] w'_def [symmetric]
    by (simp add: hi_keys_def lo_keys_def)
qed

lemma py_round3_one: "py_round3 1 = 1"
  by code_simp

lemma zoom_kept [simp]:
  "zoom (snd (get_page_pixmap p tw th w)) = zoom w"
  "zoom (on_render_finished img hr p k w) = zoom w"
  "zoom (set_document d path keep w) = zoom w"
  by (simp_all add: get_page_pixmap_def on_render_finished_def set_document_def
      start_render_task_def Let_def split: option.splits qimage.splits)

lemma run_tracked_snoc2:
  "run_tracked (evs @ [a, b]) = tracked_step b (tracked_step a (run_tracked evs))"
  by (simp add: run_tracked_def)

lemma browse_Suc: "browse visit (Suc n) = browse visit n @ visit n"
  by (simp add: browse_def)

lemma browse_0:
  "zoom (fst (run_tracked (browse visit 0))) = 1
   \<and> hi_keys (fst (run_tracked (browse visit 0))) = []
   \<and> lo_keys (fst (run_tracked (browse visit 0))) = []"
  by (simp add: browse_def run_tracked_def tracked_step_def) (simp add: init_widget_def)

lemma page_keys_fresh: "(int n, 1) \<notin> set (map (\<lambda>i. (int i, 1::rat)) [0..<n])"
  by auto

lemma browse_preview_state:
  "n \<le> 150 \<Longrightarrow>
     zoom (fst (run_tracked (browse paint_and_preview n))) = 1
   \<and> hi_keys (fst (run_tracked (browse paint_and_preview n))) = []
   \<and> lo_keys (fst (run_tracked (browse paint_and_preview n))) = map (\<lambda>i. (int i, 1)) [0..<n]"
proof (induction n)
  case 0
  from browse_0 [of paint_and_preview] show ?case by simp
next
  case (Suc n)
  define w where "w = fst (run_tracked (browse paint_and_preview n))"
  from Suc have z: "zoom w = 1" and h: "hi_keys w = []"
    and l: "lo_keys w = map (\<lambda>i. (int i, 1)) [0..<n]" and n: "Suc n \<le> 150"
    by (simp_all add: w_def)
  define w1 where "w1 = snd (get_page_pixmap (int n) 612 792 w)"
  have z1: "zoom w1 = 1" and h1: "hi_keys w1 = []"
    and l1: "lo_keys w1 = map (\<lambda>i. (int i, 1)) [0..<n]"
    using z h l by (simp_all add: w1_def hi_keys_get_page_pixmap lo_keys_get_page_pixmap)
  define w2 where "w2 = on_render_finished (Image n) False (int n) (int n, 1) w1"
  have z2: "zoom w2 = 1" using z1 by (simp add: w2_def)
  have h2: "hi_keys w2 = []" using h1 by (simp add: w2_def hi_keys_on_render_finished)
  have "lo_keys w2 = od_trim 150 (map (\<lambda>i. (int i, 1)) [0..<n] @ [(int n, 1)])"
    using z1 l1 page_keys_fresh [of n]
    by (simp add: w2_def lo_keys_on_render_finished current_key_def py_round3_one
        del: set_map set_upt)
  also have "\<dots> = map (\<lambda>i. (int i, 1)) [0..<Suc n]"
    using n by (simp add: od_trim_drop)
  finally have l2: "lo_keys w2 = map (\<lambda>i. (int i, 1)) [0..<Suc n]" .
  have "fst (run_tracked (browse paint_and_preview (Suc n))) = w2"
    by (simp add: browse_Suc paint_and_preview_def run_tracked_snoc2 tracked_step_def
        w_def w1_def w2_def)
  with z2 h2 l2 show ?case by simp
qed

lemma browse_render_state:
  "n \<le> 30 \<Longrightarrow>
     zoom (fst (run_tracked (browse paint_and_render n))) = 1
   \<and> hi_keys (fst (run_tracked (browse paint_and_render n))) = map (\<lambda>i. (int i, 1)) [0..<n]"
proof (induction n)
  case 0
  from browse_0 [of paint_and_render] show ?case by simp
next
  case (Suc n)
  define w where "w = fst (run_tracked (browse paint_and_render n))"
  from Suc have z: "zoom w = 1"
    and h: "hi_keys w = map (\<lambda>i. (int i, 1)) [0..<n]" and n: "Suc n \<le> 30"
    by (simp_all add: w_def)
  define w1 where "w1 = snd (get_page_pixmap (int n) 612 792 w)"
  have z1: "zoom w1 = 1" using z by (simp add: w1_def)
  have h1: "hi_keys w1 = map (\<lambda>i. (int i, 1)) [0..<n]"
    using z h page_keys_fresh [of n]
    by (simp add: w1_def hi_keys_get_page_pixmap current_key_def py_round3_one
        del: set_map set_upt)
  define w2 where "w2 = on_render_finished (Image n) True (int n) (int n, 1) w1"
  have z2: "zoom w2 = 1" using z1 by (simp add: w2_def)
  have "hi_keys w2 = od_trim 30 (map (\<lambda>i. (int i, 1)) [0..<n] @ [(int n, 1)])"
    using z1 h1 page_keys_fresh [of n]
    by (simp add: w2_def hi_keys_on_render_finished current_key_def py_round3_one
        filter_absent del: set_map set_upt)
  also have "\<dots> = map (\<lambda>i. (int i, 1)) [0..<Suc n]"
    using n by (simp add: od_trim_drop)
  finally have h2: "hi_keys w2 = map (\<lambda>i. (int i, 1)) [0..<Suc n]" .
  have "fst (run_tracked (browse paint_and_render (Suc n))) = w2"
    by (simp add: browse_Suc paint_and_render_def run_tracked_snoc2 tracked_step_def
        w_def w1_def w2_def)
  with z2 h2 show ?case by simp
qed

lemma lo_used_le_clock:
  "lo_used (snd (run_tracked evs)) k \<le> clock (snd (run_tracked evs))"
proof (induction evs rule: rev_induct)
  case Nil
  show ?case by (simp add: run_tracked_def init_usage_def)
next
  case (snoc e evs)
  then show ?case
    by (simp add: run_tracked_snoc tracked_step_def stamp_key_def split: option.splits)
qed

lemma trim_full_tier:
  "0 < n \<Longrightarrow> od_trim n (map (\<lambda>i. (int i, 1::rat)) [0..<n] @ [k]) = map (\<lambda>i. (int i, 1)) [1..<n] @ [k]"
  by (simp add: od_trim_drop drop_map)

lemma first_page_gone: "0 < n \<Longrightarrow> (0, 1) \<notin> set (map (\<lambda>i. (int i, 1::rat)) [1..<n] @ [(int n, 1)])"
  by auto

lemma lo_trace_state:
  "zoom (fst (run_tracked lo_trace)) = 1
   \<and> lo_keys (fst (run_tracked lo_trace)) = map (\<lambda>i. (int i, 1)) [0..<150]
   \<and> lo_used (snd (run_tracked lo_trace)) (1, 1) < lo_used (snd (run_tracked lo_trace)) (0, 1)"
proof -
  define w where "w = fst (run_tracked (browse paint_and_preview 150))"
  define g where "g = snd (run_tracked (browse paint_and_preview 150))"
  from browse_preview_state [of 150] have z: "zoom w = 1" and h: "hi_keys w = []"
    and l: "lo_keys w = map (\<lambda>i. (int i, 1)) [0..<150]"
    by (simp_all add: w_def)
  have c: "lo_used g (1, 1) \<le> clock g" unfolding g_def by (rule lo_used_le_clock)
  define wa where "wa = snd (get_page_pixmap 0 612 792 w)"
  define ga where "ga = note_use (GetPagePixmap 0 612 792) w g"
  have za: "zoom wa = 1" and ha: "hi_keys wa = []"
    and la: "lo_keys wa = map (\<lambda>i. (int i, 1)) [0..<150]"
    using z h l by (simp_all add: wa_def hi_keys_get_page_pixmap lo_keys_get_page_pixmap)
  have "(0, 1) \<in> set (map (\<lambda>i. (int i, 1::rat)) [0..<150])" by force
  then have use: "lo_use (GetPagePixmap 0 612 792) w = Some (0, 1)"
    using z h l by (simp add: current_key_def py_round3_one del: set_map set_upt)
  have ua: "lo_used ga (0, 1) = Suc (clock g)" and ub: "lo_used ga (1, 1) = lo_used g (1, 1)"
    using use by (simp_all add: ga_def stamp_key_def)
  define wb where "wb = snd (get_page_pixmap 150 612 792 wa)"
  define gb where "gb = note_use (GetPagePixmap 150 612 792) wa ga"
  have zb: "zoom wb = 1" and lb: "lo_keys wb = map (\<lambda>i. (int i, 1)) [0..<150]"
    using za la by (simp_all add: wb_def lo_keys_get_page_pixmap)
  have "lo_use (GetPagePixmap 150 612 792) wa = None"
    using za ha la page_keys_fresh [of 150]
    by (simp add: current_key_def py_round3_one del: set_map set_upt)
  then have "lo_used gb = lo_used ga" by (simp add: gb_def stamp_key_def)
  with ua ub c have lt: "lo_used gb (1, 1) < lo_used gb (0, 1)" by simp
  have "run_tracked lo_trace = (wb, gb)"
    by (simp add: lo_trace_def run_tracked_snoc2 tracked_step_def w_def g_def wa_def ga_def
        wb_def gb_def)
  with zb lb lt show ?thesis by simp
qed

text \<open>
  Claim C2, as stated, fails for the low-res tier. After previews for pages 0 to 149 have
  been cached, the paint cycle reads the preview of page 0 again; the next preview (page
  150) exceeds the capacity and evicts the entry of page 0, although the entry of page 1,
  which stays, was used less recently.
\<close>

theorem low_res_eviction_not_lru:
  "(0, 1) \<in> set (lo_keys (fst (run_tracked lo_trace)))
   \<and> (1, 1) \<in> set (lo_keys (fst (run_tracked lo_trace)))
   \<and> lo_used (snd (run_tracked lo_trace)) (1, 1) < lo_used (snd (run_tracked lo_trace)) (0, 1)
   \<and> (0, 1) \<notin> set (lo_keys (on_render_finished (Image 150) False 150 (150, 1)
                                 (fst (run_tracked lo_trace))))
   \<and> (1, 1) \<in> set (lo_keys (on_render_finished (Image 150) False 150 (150, 1)
                                 (fst (run_tracked lo_trace))))"
proof -
  define w where "w = fst (run_tracked lo_trace)"
  from lo_trace_state have z: "zoom w = 1"
    and l: "lo_keys w = map (\<lambda>i. (int i, 1)) [0..<150]"
    and u: "lo_used (snd (run_tracked lo_trace)) (1, 1) < lo_used (snd (run_tracked lo_trace)) (0, 1)"
    by (simp_all add: w_def)
  have in0: "(0, 1) \<in> set (map (\<lambda>i. (int i, 1::rat)) [0..<150])" by force
  have in1: "(1, 1) \<in> set (map (\<lambda>i. (int i, 1::rat)) [0..<150])" by force
  have "lo_keys (on_render_finished (Image 150) False 150 (150, 1) w)
          = od_trim 150 (map (\<lambda>i. (int i, 1)) [0..<150] @ [(150, 1)])"
    using z l page_keys_fresh [of 150]
    by (simp add: lo_keys_on_render_finished current_key_def py_round3_one
        del: set_map set_upt)
  also have "\<dots> = map (\<lambda>i. (int i, 1)) [1..<150] @ [(150, 1)]"
    by (rule trim_full_tier) simp
  finally have after: "lo_keys (on_render_finished (Image 150) False 150 (150, 1) w)
          = map (\<lambda>i. (int i, 1)) [1..<150] @ [(150, 1)]" .
  have out0: "(0, 1) \<notin> set (map (\<lambda>i. (int i, 1::rat)) [1..<150] @ [(150, 1)])"
    using first_page_gone [of 150] by simp
  have still1: "(1, 1) \<in> set (map (\<lambda>i. (int i, 1::rat)) [1..<150] @ [(150, 1)])" by force
  from in0 in1 u out0 still1 show ?thesis
    unfolding w_def [symmetric] by (simp only: l after simp_thms)
qed

lemma hi_trace_state:
  "zoom (fst (run_tracked hi_trace)) = 1
   \<and> hi_keys (fst (run_tracked hi_trace)) = map (\<lambda>i. (int i, 1)) [0..<30]"
proof -
  define w where "w = fst (run_tracked (browse paint_and_render 30))"
  from browse_render_state [of 30] have z: "zoom w = 1"
    and h: "hi_keys w = map (\<lambda>i. (int i, 1)) [0..<30]"
    by (simp_all add: w_def)
  have "fst (run_tracked hi_trace) = snd (get_page_pixmap 30 612 792 w)"
    by (simp add: hi_trace_def run_tracked_snoc tracked_step_def w_def)
  moreover have "hi_keys (snd (get_page_pixmap 30 612 792 w)) = map (\<lambda>i. (int i, 1)) [0..<30]"
    using z h page_keys_fresh [of 30]
    by (simp add: hi_keys_get_page_pixmap current_key_def py_round3_one del: set_map set_upt)
  ultimately show ?thesis using z by simp
qed

theorem cache_capacity_and_eviction_witness:
  "(0, 1) \<in> set (hi_keys (fst (run_tracked hi_trace)))
   \<and> (0, 1) \<notin> set (hi_keys (on_render_finished (Image 30) True 30 (30, 1)
                                 (fst (run_tracked hi_trace))))
   \<and> (1, 1) \<in> set (hi_keys (fst (run_tracked hi_trace)))
   \<and> hi_used (snd (run_tracked hi_trace)) (0, 1) \<le> hi_used (snd (run_tracked hi_trace)) (1, 1)
   \<and> length (render_cache (on_render_finished (Image 30) True 30 (30, 1)
                              (fst (run_tracked hi_trace)))) \<le> 30"
proof -
  define w where "w = fst (run_tracked hi_trace)"
  from hi_trace_state have z: "zoom w = 1"
    and h: "hi_keys w = map (\<lambda>i. (int i, 1)) [0..<30]"
    by (simp_all add: w_def)
  have in0: "(0, 1) \<in> set (hi_keys w)" unfolding h by force
  have in1: "(1, 1) \<in> set (hi_keys w)" unfolding h by force
  have "hi_keys (on_render_finished (Image 30) True 30 (30, 1) w)
          = od_trim 30 (map (\<lambda>i. (int i, 1)) [0..<30] @ [(30, 1)])"
    using z h page_keys_fresh [of 30]
    by (simp add: hi_keys_on_render_finished current_key_def py_round3_one filter_absent
        del: set_map set_upt)
  also have "\<dots> = map (\<lambda>i. (int i, 1)) [1..<30] @ [(30, 1)]"
    by (rule trim_full_tier) simp
  finally have after: "hi_keys (on_render_finished (Image 30) True 30 (30, 1) w)
          = map (\<lambda>i. (int i, 1)) [1..<30] @ [(30, 1)]" .
  have out0: "(0, 1) \<notin> set (hi_keys (on_render_finished (Image 30) True 30 (30, 1) w))"
    unfolding after using first_page_gone [of 30] by simp
  from cache_capacity_and_eviction
         [of hi_trace "Image 30" True 30 "(30, 1)" "(0, 1)" "(1, 1)"] in0 in1 out0
  have "hi_used (snd (run_tracked hi_trace)) (0, 1) \<le> hi_used (snd (run_tracked hi_trace)) (1, 1)"
    and "length (render_cache (on_render_finished (Image 30) True 30 (30, 1) w)) \<le> 30"
    unfolding w_def by blast+
  with in0 in1 out0 show ?thesis unfolding w_def by blast
qed

end
